theory Spec2Isabelle
  imports Main "HOL-Library.Word"
begin

section \<open>The store\<close>

text \<open>
  The zone and hunk allocators of \<^verbatim>\<open>src/q3/common.c\<close> keep their bookkeeping in band:
  block headers, free-list nodes and temp-frame headers live in the memory they manage.
  The model is an explicit store. Addresses are integers and \<open>0\<close> is \<^verbatim>\<open>NULL\<close>. The
  store has one component per C type through which the zone allocator reads memory
  (\<open>blocks\<close> for \<^verbatim>\<open>memblock_t\<close>, \<open>frees\<close> for \<^verbatim>\<open>freeblock_t\<close>), each keyed by the
  address of the object, and the component \<open>bytes\<close> for everything else: payload
  bytes, the trash sentinel and the \<^verbatim>\<open>hunkHeader_t\<close> of a temp frame, which is read
  from and written to \<open>bytes\<close> field by field, so that \<^verbatim>\<open>Com_Memset\<close> over a part of
  the hunk clears the headers that lie there. The free-list node of a free block
  occupies the first 16 bytes of its payload; the model keeps the node in \<open>frees\<close>
  and leaves \<open>bytes\<close> at these addresses as the last byte-wise write left them.

  The layout is the LP64 one: pointers, \<^verbatim>\<open>size_t\<close> and \<^verbatim>\<open>intptr_t\<close> are 8 bytes,
  \<^verbatim>\<open>int\<close> and the enum \<^verbatim>\<open>memtag_t\<close> 4 bytes, integers are little endian. A C
  \<^verbatim>\<open>int\<close> is an \<open>int\<close>. Where a size passed in by a caller enters the arithmetic
  (\<^verbatim>\<open>Hunk_Alloc\<close>, \<^verbatim>\<open>Hunk_AllocateTempMemory\<close>, \<^verbatim>\<open>Z_TagMalloc\<close>, \<^verbatim>\<open>NewBlock\<close>),
  every value stored in an \<^verbatim>\<open>int\<close> is reduced to the range of \<^verbatim>\<open>int\<close> by
  \<open>to_int\<close>, as two's complement arithmetic does, and conversions to
  \<^verbatim>\<open>unsigned int\<close> and \<^verbatim>\<open>size_t\<close> are written out. The sizes of blocks and their
  sums, which are bounded by the memory that \<^verbatim>\<open>calloc\<close> has handed out, are left as
  they are; there the model agrees with the program as long as the heap ends below
  \<open>2^31\<close>.
\<close>

type_synonym addr = int
type_synonym byte = "8 word"

datatype memtag =
    TAG_FREE | TAG_GENERAL | TAG_PACK | TAG_SEARCH_PATH | TAG_SEARCH_PACK | TAG_SEARCH_DIR
  | TAG_BOTLIB | TAG_RENDERER | TAG_CLIENTS | TAG_SMALL | TAG_STATIC

datatype errorParm = ERR_FATAL | ERR_DROP

datatype ha_pref = h_high | h_low | h_dontcare

text \<open>\<^verbatim>\<open>memblock_t\<close>; the fields are \<^verbatim>\<open>next, prev, size, tag, id\<close>.\<close>

record memblock =
  next_m :: addr
  prev_m :: addr
  size_m :: int
  tag_m :: memtag
  id_m :: int

text \<open>\<^verbatim>\<open>freeblock_t\<close>; the fields are \<^verbatim>\<open>prev, next\<close>.\<close>

record freeblock =
  prev_f :: addr
  next_f :: addr

text \<open>\<^verbatim>\<open>hunkHeader_t\<close>; both fields are \<^verbatim>\<open>unsigned int\<close>.\<close>

record hunkHeader =
  magic :: int
  size_h :: int

record hunkUsed =
  mark :: int
  permanent :: int
  temp :: int
  tempHighwater :: int

text \<open>The two values the pointers \<^verbatim>\<open>hunk_permanent\<close> and \<^verbatim>\<open>hunk_temp\<close> take.\<close>

datatype hunkptr = hunk_low_ptr | hunk_high_ptr

text \<open>
  The globals of the file and the memory. \<open>zone_size\<close> and \<open>zone_used\<close> are the
  fields \<^verbatim>\<open>size\<close> and \<^verbatim>\<open>used\<close> of the \<^verbatim>\<open>memzone_t\<close> at the given address.
  \<open>s_buf\<close> is the address of the static buffer of \<^verbatim>\<open>Com_InitSmallZoneMemory\<close>.
  \<open>brk\<close> and \<open>heap_end\<close> model the C library's \<^verbatim>\<open>calloc\<close>: memory is handed out
  from \<open>brk\<close> upwards and the call fails once \<open>heap_end\<close> would be passed.
\<close>

record state =
  blocks :: "addr \<Rightarrow> memblock"
  frees :: "addr \<Rightarrow> freeblock"
  bytes :: "addr \<Rightarrow> byte"
  zone_size :: "addr \<Rightarrow> int"
  zone_used :: "addr \<Rightarrow> int"
  minfragment :: int
  mainzone :: addr
  smallzone :: addr
  hunk_low :: hunkUsed
  hunk_high :: hunkUsed
  hunk_permanent :: hunkptr
  hunk_temp :: hunkptr
  s_hunkData :: addr
  s_hunkTotal :: int
  s_buf :: addr
  brk :: addr
  heap_end :: addr

text \<open>
  A result is either the error handed to \<^verbatim>\<open>Com_Error\<close>, which does not return,
  together with the state at that moment, or the value returned.
\<close>

type_synonym 'a result = "(errorParm \<times> string \<times> state) + 'a"

definition Com_Error :: "state \<Rightarrow> errorParm \<Rightarrow> string \<Rightarrow> 'a result" where
  "Com_Error s code fmt = Inl (code, fmt, s)"

section \<open>Constants and macros\<close>

definition ZONEID :: int where "ZONEID = 0x1d4a11"
definition MINFRAGMENT :: int where "MINFRAGMENT = 64"
definition SMALL_SIZE :: int where "SMALL_SIZE = 64"
definition MEDIUM_SIZE :: int where "MEDIUM_SIZE = 128"
definition MIN_COMHUNKMEGS :: int where "MIN_COMHUNKMEGS = 48"
definition DEF_COMHUNKMEGS :: int where "DEF_COMHUNKMEGS = 56"
definition DEF_COMZONEMEGS :: int where "DEF_COMZONEMEGS = 12"
definition HUNK_MAGIC :: int where "HUNK_MAGIC = 0x89537892"
definition HUNK_FREE_MAGIC :: int where "HUNK_FREE_MAGIC = 0x89537893"

definition sizeof_memblock :: int where "sizeof_memblock = 32"
definition sizeof_freeblock :: int where "sizeof_freeblock = 16"
definition sizeof_intptr :: int where "sizeof_intptr = 8"
definition sizeof_hunkHeader :: int where "sizeof_hunkHeader = 8"
definition sizeof_memzone :: int where "sizeof_memzone = 232"

text \<open>Addresses of the members of a \<^verbatim>\<open>memzone_t\<close> at address \<open>zone\<close>.\<close>

definition blocklist :: "addr \<Rightarrow> addr" where "blocklist zone = zone + 8"
definition freelist_tiny :: "addr \<Rightarrow> addr" where "freelist_tiny zone = zone + 72"
definition freelist_small :: "addr \<Rightarrow> addr" where "freelist_small zone = zone + 120"
definition freelist_medium :: "addr \<Rightarrow> addr" where "freelist_medium zone = zone + 168"
definition freelist :: "addr \<Rightarrow> addr" where "freelist zone = zone + 216"

text \<open>
  Modelled from the spec: the macro \<^verbatim>\<open>PAD\<close> is defined in \<^verbatim>\<open>q_shared.h\<close>, which is
  not among the sources. The spec says it rounds its first argument up to a multiple of
  the second.
\<close>

definition PAD :: "int \<Rightarrow> int \<Rightarrow> int" where
  "PAD base alignment = ((base + alignment - 1) div alignment) * alignment"

text \<open>
  Conversion of a value to \<^verbatim>\<open>unsigned int\<close>, to \<^verbatim>\<open>int\<close> and to \<^verbatim>\<open>size_t\<close>
  (two's complement).
\<close>

definition to_uint :: "int \<Rightarrow> int" where
  "to_uint x = x mod 2 ^ 32"

definition to_int :: "int \<Rightarrow> int" where
  "to_int x = (x + 2 ^ 31) mod 2 ^ 32 - 2 ^ 31"

definition to_size_t :: "int \<Rightarrow> int" where
  "to_size_t x = x mod 2 ^ 64"

definition Com_Memset :: "state \<Rightarrow> addr \<Rightarrow> byte \<Rightarrow> int \<Rightarrow> state" where
  "Com_Memset s dest c n =
     s\<lparr>bytes := (\<lambda>a. if dest \<le> a \<and> a < dest + n then c else bytes s a)\<rparr>"

text \<open>Reading and writing an \<^verbatim>\<open>int\<close> through \<^verbatim>\<open>*(int *)p\<close>.\<close>

definition read_int :: "state \<Rightarrow> addr \<Rightarrow> int" where
  "read_int s p =
     to_int (uint (bytes s p) + 256 * uint (bytes s (p + 1))
             + 65536 * uint (bytes s (p + 2)) + 16777216 * uint (bytes s (p + 3)))"

definition write_int :: "state \<Rightarrow> addr \<Rightarrow> int \<Rightarrow> state" where
  "write_int s p v =
     s\<lparr>bytes := (bytes s)
         (p := word_of_int v, p + 1 := word_of_int (v div 256),
          p + 2 := word_of_int (v div 65536), p + 3 := word_of_int (v div 16777216))\<rparr>"

text \<open>
  Reading an \<^verbatim>\<open>unsigned int\<close>; \<open>write_int\<close> stores the low 32 bits of a value and
  so writes an \<^verbatim>\<open>unsigned int\<close> as well. \<open>hdrs s hdr\<close> is the \<^verbatim>\<open>hunkHeader_t\<close>
  read through the pointer \<open>hdr\<close>, with \<^verbatim>\<open>magic\<close> at offset 0 and \<^verbatim>\<open>size\<close> at
  offset 4.
\<close>

definition read_uint :: "state \<Rightarrow> addr \<Rightarrow> int" where
  "read_uint s p =
     uint (bytes s p) + 256 * uint (bytes s (p + 1))
       + 65536 * uint (bytes s (p + 2)) + 16777216 * uint (bytes s (p + 3))"

definition hdrs :: "state \<Rightarrow> addr \<Rightarrow> hunkHeader" where
  "hdrs s hdr = \<lparr>magic = read_uint s hdr, size_h = read_uint s (hdr + 4)\<rparr>"

definition zero_memblock :: memblock where
  "zero_memblock = \<lparr>next_m = 0, prev_m = 0, size_m = 0, tag_m = TAG_FREE, id_m = 0\<rparr>"

definition zero_freeblock :: freeblock where
  "zero_freeblock = \<lparr>prev_f = 0, next_f = 0\<rparr>"

definition zero_hunkUsed :: hunkUsed where
  "zero_hunkUsed = \<lparr>mark = 0, permanent = 0, temp = 0, tempHighwater = 0\<rparr>"

text \<open>
  \<^verbatim>\<open>calloc(n, 1)\<close>: the next \<open>n\<close> bytes above \<open>brk\<close>, zeroed in every view, or
  \<^verbatim>\<open>NULL\<close> when the heap is exhausted.
\<close>

definition calloc :: "state \<Rightarrow> int \<Rightarrow> state \<times> addr" where
  "calloc s n =
     (if brk s + n \<le> heap_end s then
        (let p = brk s in
         (s\<lparr>blocks := (\<lambda>a. if p \<le> a \<and> a < p + n then zero_memblock else blocks s a),
            frees := (\<lambda>a. if p \<le> a \<and> a < p + n then zero_freeblock else frees s a),
            bytes := (\<lambda>a. if p \<le> a \<and> a < p + n then 0 else bytes s a),
            brk := p + n\<rparr>, p))
      else (s, 0))"

section \<open>Field assignments\<close>

definition set_next :: "state \<Rightarrow> addr \<Rightarrow> addr \<Rightarrow> state" where
  "set_next s b v = s\<lparr>blocks := (blocks s)(b := (blocks s b)\<lparr>next_m := v\<rparr>)\<rparr>"

definition set_prev :: "state \<Rightarrow> addr \<Rightarrow> addr \<Rightarrow> state" where
  "set_prev s b v = s\<lparr>blocks := (blocks s)(b := (blocks s b)\<lparr>prev_m := v\<rparr>)\<rparr>"

definition set_size :: "state \<Rightarrow> addr \<Rightarrow> int \<Rightarrow> state" where
  "set_size s b v = s\<lparr>blocks := (blocks s)(b := (blocks s b)\<lparr>size_m := v\<rparr>)\<rparr>"

definition set_tag :: "state \<Rightarrow> addr \<Rightarrow> memtag \<Rightarrow> state" where
  "set_tag s b v = s\<lparr>blocks := (blocks s)(b := (blocks s b)\<lparr>tag_m := v\<rparr>)\<rparr>"

definition set_id :: "state \<Rightarrow> addr \<Rightarrow> int \<Rightarrow> state" where
  "set_id s b v = s\<lparr>blocks := (blocks s)(b := (blocks s b)\<lparr>id_m := v\<rparr>)\<rparr>"

definition set_fprev :: "state \<Rightarrow> addr \<Rightarrow> addr \<Rightarrow> state" where
  "set_fprev s fb v = s\<lparr>frees := (frees s)(fb := (frees s fb)\<lparr>prev_f := v\<rparr>)\<rparr>"

definition set_fnext :: "state \<Rightarrow> addr \<Rightarrow> addr \<Rightarrow> state" where
  "set_fnext s fb v = s\<lparr>frees := (frees s)(fb := (frees s fb)\<lparr>next_f := v\<rparr>)\<rparr>"

definition set_used :: "state \<Rightarrow> addr \<Rightarrow> int \<Rightarrow> state" where
  "set_used s zone v = s\<lparr>zone_used := (zone_used s)(zone := v)\<rparr>"

definition set_zsize :: "state \<Rightarrow> addr \<Rightarrow> int \<Rightarrow> state" where
  "set_zsize s zone v = s\<lparr>zone_size := (zone_size s)(zone := v)\<rparr>"

section \<open>Zone memory allocation\<close>

definition InitFree :: "state \<Rightarrow> addr \<Rightarrow> state" where
  "InitFree s fb =
     (let block = fb - sizeof_memblock
      in s\<lparr>blocks := (blocks s)(block := zero_memblock)\<rparr>)"

definition RemoveFree :: "state \<Rightarrow> addr \<Rightarrow> state" where
  "RemoveFree s block =
     (let fb = block + sizeof_memblock;
          prev = prev_f (frees s fb);
          next = next_f (frees s fb);
          s = set_fnext s prev next;
          s = set_fprev s next prev
      in s)"

definition InsertFree :: "state \<Rightarrow> addr \<Rightarrow> addr \<Rightarrow> state" where
  "InsertFree s zone block =
     (let fb = block + sizeof_memblock;
          prev = (if size_m (blocks s block) \<le> SMALL_SIZE then freelist_small zone
                  else if size_m (blocks s block) \<le> MEDIUM_SIZE then freelist_medium zone
                  else freelist zone);
          next = next_f (frees s prev);
          s = set_fnext s prev fb;
          s = set_fprev s next fb;
          s = set_fprev s fb prev;
          s = set_fnext s fb next
      in s)"

text \<open>
  \<^verbatim>\<open>NewBlock\<close> returns the free-list node of the block of the new segment;
  a failed \<^verbatim>\<open>calloc\<close> is fatal. The rounded size and \<^verbatim>\<open>alloc_size\<close> are
  \<^verbatim>\<open>int\<close>s, and \<^verbatim>\<open>calloc\<close> takes a \<^verbatim>\<open>size_t\<close>.
\<close>

definition NewBlock :: "state \<Rightarrow> addr \<Rightarrow> int \<Rightarrow> (state \<times> addr) result" where
  "NewBlock s zone size' =
     (let prev = prev_m (blocks s (blocklist zone));
          next = next_m (blocks s prev);
          size' = to_int (PAD size' (2 ^ 21));
          alloc_size = to_int (size' + sizeof_memblock);
          (s, sep) = calloc s (to_size_t alloc_size)
      in if sep = 0 then
           Com_Error s ERR_FATAL ''Z_Malloc: failed on allocation of %i bytes from the %s zone''
         else
          (let block = sep + sizeof_memblock;
               s = set_next s prev sep;
               s = set_prev s sep prev;
               s = set_next s sep block;
               s = set_prev s block sep;
               s = set_next s block next;
               s = set_prev s next block;
               s = set_tag s sep TAG_GENERAL;
               s = set_id s sep (- ZONEID);
               s = set_size s sep 0;
               s = set_tag s block TAG_FREE;
               s = set_id s block ZONEID;
               s = set_size s block size';
               s = set_zsize s zone (zone_size s zone + alloc_size);
               s = set_used s zone (zone_used s zone + sizeof_memblock);
               s = InsertFree s zone block
           in Inr (s, block + sizeof_memblock)))"

text \<open>
  The loop of \<^verbatim>\<open>SearchFree\<close>, with \<^verbatim>\<open>DIRECTION\<close> being \<^verbatim>\<open>next\<close> and
  \<^verbatim>\<open>TINY_SIZE\<close> undefined. It need not terminate on a damaged free list, so it is a
  partial function: \<open>None\<close> is a run that never returns.
\<close>

partial_function (option) SearchFree_loop ::
  "state \<Rightarrow> addr \<Rightarrow> int \<Rightarrow> addr \<Rightarrow> ((state \<times> addr) result) option" where
  "SearchFree_loop s zone size' fb =
     (if fb \<noteq> freelist zone \<and> fb = freelist_small zone then
        SearchFree_loop s zone size' (next_f (frees s (freelist_medium zone)))
      else if fb \<noteq> freelist zone \<and> fb = freelist_medium zone then
        SearchFree_loop s zone size' (next_f (frees s (freelist zone)))
      else
        (case (if fb = freelist zone then NewBlock s zone size' else Inr (s, fb)) of
           Inl e \<Rightarrow> Some (Inl e)
         | Inr (s, fb) \<Rightarrow>
            (let base = fb - sizeof_memblock;
                 fb = next_f (frees s fb)
             in if size_m (blocks s base) \<ge> size' then Some (Inr (s, base))
                else SearchFree_loop s zone size' fb)))"

definition SearchFree :: "state \<Rightarrow> addr \<Rightarrow> int \<Rightarrow> ((state \<times> addr) result) option" where
  "SearchFree s zone size' =
     (let fb = (if size' \<le> SMALL_SIZE then next_f (frees s (freelist_small zone))
                else if size' \<le> MEDIUM_SIZE then next_f (frees s (freelist_medium zone))
                else next_f (frees s (freelist zone)))
      in SearchFree_loop s zone size' fb)"

definition Z_ClearZone :: "state \<Rightarrow> addr \<Rightarrow> addr \<Rightarrow> int \<Rightarrow> int \<Rightarrow> state" where
  "Z_ClearZone s zone head size' segnum =
     (let min_fragment = sizeof_memblock + sizeof_freeblock;
          s = (if minfragment s < min_fragment
               then s\<lparr>minfragment := PAD min_fragment sizeof_intptr\<rparr> else s);
          block = zone + sizeof_memzone;
          s = set_prev s (blocklist zone) block;
          s = set_next s (blocklist zone) block;
          s = set_tag s (blocklist zone) TAG_GENERAL;
          s = set_id s (blocklist zone) (- ZONEID);
          s = set_size s (blocklist zone) 0;
          s = set_zsize s zone size';
          s = set_used s zone 0;
          s = set_next s block (blocklist zone);
          s = set_prev s block (blocklist zone);
          s = set_tag s block TAG_FREE;
          s = set_id s block ZONEID;
          s = set_size s block (size' - sizeof_memzone);
          s = InitFree s (freelist zone);
          s = set_fprev s (freelist zone) (freelist zone);
          s = set_fnext s (freelist zone) (freelist zone);
          s = InitFree s (freelist_medium zone);
          s = set_fprev s (freelist_medium zone) (freelist_medium zone);
          s = set_fnext s (freelist_medium zone) (freelist_medium zone);
          s = InitFree s (freelist_small zone);
          s = set_fprev s (freelist_small zone) (freelist_small zone);
          s = set_fnext s (freelist_small zone) (freelist_small zone);
          s = InitFree s (freelist_tiny zone);
          s = set_fprev s (freelist_tiny zone) (freelist_tiny zone);
          s = set_fnext s (freelist_tiny zone) (freelist_tiny zone);
          s = InsertFree s zone block
      in s)"

definition Z_AvailableZoneMemory :: "state \<Rightarrow> addr \<Rightarrow> int" where
  "Z_AvailableZoneMemory s zone = 1024 * 1024 * 1024"

definition Z_AvailableMemory :: "state \<Rightarrow> int" where
  "Z_AvailableMemory s = Z_AvailableZoneMemory s (mainzone s)"

definition MergeBlock :: "state \<Rightarrow> addr \<Rightarrow> addr \<Rightarrow> state" where
  "MergeBlock s curr_free next =
     (let s = set_size s curr_free (size_m (blocks s curr_free) + size_m (blocks s next));
          s = set_next s curr_free (next_m (blocks s next));
          s = set_prev s (next_m (blocks s curr_free)) curr_free
      in s)"

definition Z_Free :: "state \<Rightarrow> addr \<Rightarrow> state result" where
  "Z_Free s ptr =
     (if ptr = 0 then Com_Error s ERR_DROP ''Z_Free: NULL pointer''
      else
       (let block = ptr - sizeof_memblock
        in if id_m (blocks s block) \<noteq> ZONEID then
             Com_Error s ERR_FATAL ''Z_Free: freed a pointer without ZONEID''
           else if tag_m (blocks s block) = TAG_FREE then
             Com_Error s ERR_FATAL ''Z_Free: freed a freed pointer''
           else if tag_m (blocks s block) = TAG_STATIC then Inr s
           else if read_int s (block + size_m (blocks s block) - 4) \<noteq> ZONEID then
             Com_Error s ERR_FATAL ''Z_Free: memory block wrote past end''
           else
            (let zone = (if tag_m (blocks s block) = TAG_SMALL then smallzone s
                         else mainzone s);
                 s = set_used s zone (zone_used s zone - size_m (blocks s block));
                 s = Com_Memset s ptr 0xaa (size_m (blocks s block) - sizeof_memblock);
                 s = set_tag s block TAG_FREE;
                 s = set_id s block ZONEID;
                 other = prev_m (blocks s block);
                 (s, block) =
                    (if tag_m (blocks s other) = TAG_FREE
                     then (MergeBlock (RemoveFree s other) other block, other)
                     else (s, block));
                 other = next_m (blocks s block);
                 s = (if tag_m (blocks s other) = TAG_FREE
                      then MergeBlock (RemoveFree s other) block other
                      else s);
                 s = InsertFree s zone block
             in Inr s)))"

text \<open>
  The loop of \<^verbatim>\<open>Z_FreeTags\<close>. It walks the block list until it meets the list
  head again, so it too is a partial function.
\<close>

partial_function (option) Z_FreeTags_loop ::
  "state \<Rightarrow> addr \<Rightarrow> memtag \<Rightarrow> addr \<Rightarrow> int \<Rightarrow> ((state \<times> int) result) option" where
  "Z_FreeTags_loop s zone tag block count =
     (case (if tag_m (blocks s block) = tag \<and> id_m (blocks s block) = ZONEID then
              (let freed = (if tag_m (blocks s (prev_m (blocks s block))) = TAG_FREE
                            then prev_m (blocks s block) else block)
               in case Z_Free s (block + sizeof_memblock) of
                    Inl e \<Rightarrow> Inl e
                  | Inr s \<Rightarrow> Inr (s, freed, count + 1))
            else Inr (s, block, count)) of
        Inl e \<Rightarrow> Some (Inl e)
      | Inr (s, block, count) \<Rightarrow>
          if next_m (blocks s block) = blocklist zone then Some (Inr (s, count))
          else Z_FreeTags_loop s zone tag (next_m (blocks s block)) count)"

definition Z_FreeTags :: "state \<Rightarrow> memtag \<Rightarrow> ((state \<times> int) result) option" where
  "Z_FreeTags s tag =
     (if tag = TAG_STATIC then Some (Com_Error s ERR_FATAL ''Z_FreeTags( TAG_STATIC )'')
      else
       (let zone = (if tag = TAG_SMALL then smallzone s else mainzone s)
        in Z_FreeTags_loop s zone tag (next_m (blocks s (blocklist zone))) 0))"

text \<open>
  \<^verbatim>\<open>Z_TagMalloc\<close>. The comparison \<^verbatim>\<open>size < sizeof( freeblock_t )\<close> is made in
  \<^verbatim>\<open>size_t\<close>, where a negative \<open>size'\<close> is a large number, and each assignment to
  \<^verbatim>\<open>size\<close> reduces the value to the range of \<^verbatim>\<open>int\<close>.
\<close>

definition Z_TagMalloc :: "state \<Rightarrow> int \<Rightarrow> memtag \<Rightarrow> ((state \<times> addr) result) option" where
  "Z_TagMalloc s size' tag =
     (if tag = TAG_FREE then
        Some (Com_Error s ERR_FATAL ''Z_TagMalloc: tried to use with TAG_FREE'')
      else
       (let zone = (if tag = TAG_SMALL then smallzone s else mainzone s);
            size' = (if to_size_t size' < sizeof_freeblock then sizeof_freeblock else size');
            size' = to_int (size' + sizeof_memblock);
            size' = to_int (size' + 4);
            size' = to_int (PAD size' sizeof_intptr)
        in case SearchFree s zone size' of
             None \<Rightarrow> None
           | Some (Inl e) \<Rightarrow> Some (Inl e)
           | Some (Inr (s, base)) \<Rightarrow>
              (let s = RemoveFree s base;
                   extra = size_m (blocks s base) - size';
                   s = (if extra \<ge> minfragment s then
                          (let fragment = base + size';
                               s = set_size s fragment extra;
                               s = set_tag s fragment TAG_FREE;
                               s = set_id s fragment ZONEID;
                               s = set_prev s fragment base;
                               s = set_next s fragment (next_m (blocks s base));
                               s = set_prev s (next_m (blocks s fragment)) fragment;
                               s = set_next s base fragment;
                               s = set_size s base size';
                               s = InsertFree s zone fragment
                           in s)
                        else s);
                   s = set_used s zone (zone_used s zone + size_m (blocks s base));
                   s = set_tag s base tag;
                   s = set_id s base ZONEID;
                   s = write_int s (base + size_m (blocks s base) - 4) ZONEID
               in Some (Inr (s, base + sizeof_memblock)))))"

definition Z_Malloc :: "state \<Rightarrow> int \<Rightarrow> ((state \<times> addr) result) option" where
  "Z_Malloc s size' =
     (case Z_TagMalloc s size' TAG_GENERAL of
        None \<Rightarrow> None
      | Some (Inl e) \<Rightarrow> Some (Inl e)
      | Some (Inr (s, buf)) \<Rightarrow> Some (Inr (Com_Memset s buf 0 (to_size_t size'), buf)))"

definition S_Malloc :: "state \<Rightarrow> int \<Rightarrow> ((state \<times> addr) result) option" where
  "S_Malloc s size' = Z_TagMalloc s size' TAG_SMALL"

text \<open>
  \<^verbatim>\<open>MEM_STATIC(chr)\<close>: a \<^verbatim>\<open>memstatic_t\<close> placed at address \<open>a\<close>, as the entries of
  \<^verbatim>\<open>emptystring\<close> and \<^verbatim>\<open>numberstring\<close> are. Its size is
  \<^verbatim>\<open>PAD(sizeof(memstatic_t), 4)\<close>, which is 40.
\<close>

definition MEM_STATIC :: "state \<Rightarrow> addr \<Rightarrow> byte \<Rightarrow> state" where
  "MEM_STATIC s a chr =
     s\<lparr>blocks := (blocks s)
          (a := \<lparr>next_m = 0, prev_m = 0, size_m = PAD 40 4, tag_m = TAG_STATIC, id_m = ZONEID\<rparr>),
        bytes := (bytes s)(a + sizeof_memblock := chr, a + sizeof_memblock + 1 := 0)\<rparr>"

section \<open>Hunk memory allocation\<close>

definition bank :: "state \<Rightarrow> hunkptr \<Rightarrow> hunkUsed" where
  "bank s p = (case p of hunk_low_ptr \<Rightarrow> hunk_low s | hunk_high_ptr \<Rightarrow> hunk_high s)"

definition set_bank :: "state \<Rightarrow> hunkptr \<Rightarrow> hunkUsed \<Rightarrow> state" where
  "set_bank s p v =
     (case p of hunk_low_ptr \<Rightarrow> s\<lparr>hunk_low := v\<rparr> | hunk_high_ptr \<Rightarrow> s\<lparr>hunk_high := v\<rparr>)"

definition Hunk_MemoryRemaining :: "state \<Rightarrow> int" where
  "Hunk_MemoryRemaining s =
     (let low = (if permanent (hunk_low s) > temp (hunk_low s)
                 then permanent (hunk_low s) else temp (hunk_low s));
          high = (if permanent (hunk_high s) > temp (hunk_high s)
                  then permanent (hunk_high s) else temp (hunk_high s))
      in s_hunkTotal s - (low + high))"

definition Hunk_SetMark :: "state \<Rightarrow> state" where
  "Hunk_SetMark s =
     (let s = s\<lparr>hunk_low := (hunk_low s)\<lparr>mark := permanent (hunk_low s)\<rparr>\<rparr>;
          s = s\<lparr>hunk_high := (hunk_high s)\<lparr>mark := permanent (hunk_high s)\<rparr>\<rparr>
      in s)"

definition Hunk_ClearToMark :: "state \<Rightarrow> state" where
  "Hunk_ClearToMark s =
     (let s = s\<lparr>hunk_low := (hunk_low s)\<lparr>permanent := mark (hunk_low s),
                                          temp := mark (hunk_low s)\<rparr>\<rparr>;
          s = s\<lparr>hunk_high := (hunk_high s)\<lparr>permanent := mark (hunk_high s),
                                            temp := mark (hunk_high s)\<rparr>\<rparr>
      in s)"

definition Hunk_CheckMark :: "state \<Rightarrow> bool" where
  "Hunk_CheckMark s = (mark (hunk_low s) \<noteq> 0 \<or> mark (hunk_high s) \<noteq> 0)"

definition Hunk_Clear :: "state \<Rightarrow> state" where
  "Hunk_Clear s =
     s\<lparr>hunk_low := zero_hunkUsed, hunk_high := zero_hunkUsed,
       hunk_permanent := hunk_low_ptr, hunk_temp := hunk_high_ptr\<rparr>"

definition Hunk_SwapBanks :: "state \<Rightarrow> state" where
  "Hunk_SwapBanks s =
     (if temp (bank s (hunk_temp s)) \<noteq> permanent (bank s (hunk_temp s)) then s
      else if tempHighwater (bank s (hunk_temp s)) - permanent (bank s (hunk_temp s))
              > tempHighwater (bank s (hunk_permanent s)) - permanent (bank s (hunk_permanent s))
      then (let swap = hunk_temp s;
                s = s\<lparr>hunk_temp := hunk_permanent s\<rparr>;
                s = s\<lparr>hunk_permanent := swap\<rparr>
            in s)
      else s)"

definition Hunk_Alloc :: "state \<Rightarrow> int \<Rightarrow> ha_pref \<Rightarrow> (state \<times> addr) result" where
  "Hunk_Alloc s size' preference =
     (if s_hunkData s = 0 then
        Com_Error s ERR_FATAL ''Hunk_Alloc: Hunk memory system not initialized''
      else
       (let s = (if preference = h_dontcare
                    \<or> temp (bank s (hunk_temp s)) \<noteq> permanent (bank s (hunk_temp s))
                 then Hunk_SwapBanks s
                 else if preference = h_low \<and> hunk_permanent s \<noteq> hunk_low_ptr
                 then Hunk_SwapBanks s
                 else if preference = h_high \<and> hunk_permanent s \<noteq> hunk_high_ptr
                 then Hunk_SwapBanks s
                 else s);
            size' = to_int (PAD size' 64)
        in if to_int (temp (hunk_low s) + temp (hunk_high s) + size') > s_hunkTotal s then
             Com_Error s ERR_DROP ''Hunk_Alloc failed on %i''
           else
            (let p = hunk_permanent s;
                 (s, buf) =
                   (if p = hunk_low_ptr then
                      (let buf = s_hunkData s + permanent (bank s p);
                           s = set_bank s p
                                 ((bank s p)\<lparr>permanent := to_int (permanent (bank s p) + size')\<rparr>)
                       in (s, buf))
                    else
                      (let s = set_bank s p
                                 ((bank s p)\<lparr>permanent := to_int (permanent (bank s p) + size')\<rparr>);
                           buf = s_hunkData s + s_hunkTotal s - permanent (bank s p)
                       in (s, buf)));
                 s = set_bank s p ((bank s p)\<lparr>temp := permanent (bank s p)\<rparr>);
                 s = Com_Memset s buf 0 (to_size_t size')
             in Inr (s, buf))))"

text \<open>
  \<^verbatim>\<open>Hunk_AllocateTempMemory\<close>. \<^verbatim>\<open>PAD(size, sizeof(intptr_t)) + sizeof( hunkHeader_t )\<close>
  is formed in \<^verbatim>\<open>size_t\<close> and converted to \<^verbatim>\<open>int\<close> by the assignment to
  \<^verbatim>\<open>size\<close>; the header field \<^verbatim>\<open>size\<close> is an \<^verbatim>\<open>unsigned int\<close>.
\<close>

definition Hunk_AllocateTempMemory :: "state \<Rightarrow> int \<Rightarrow> ((state \<times> addr) result) option" where
  "Hunk_AllocateTempMemory s size' =
     (if s_hunkData s = 0 then Z_Malloc s size'
      else
       (let s = Hunk_SwapBanks s;
            size' = to_int (PAD size' sizeof_intptr + sizeof_hunkHeader)
        in if to_int (temp (bank s (hunk_temp s)) + permanent (bank s (hunk_permanent s)) + size')
                > s_hunkTotal s then
             Some (Com_Error s ERR_DROP ''Hunk_AllocateTempMemory: failed on %i'')
           else
            (let t = hunk_temp s;
                 (s, buf) =
                   (if t = hunk_low_ptr then
                      (let buf = s_hunkData s + temp (bank s t);
                           s = set_bank s t ((bank s t)\<lparr>temp := to_int (temp (bank s t) + size')\<rparr>)
                       in (s, buf))
                    else
                      (let s = set_bank s t ((bank s t)\<lparr>temp := to_int (temp (bank s t) + size')\<rparr>);
                           buf = s_hunkData s + s_hunkTotal s - temp (bank s t)
                       in (s, buf)));
                 s = (if temp (bank s t) > tempHighwater (bank s t)
                      then set_bank s t ((bank s t)\<lparr>tempHighwater := temp (bank s t)\<rparr>)
                      else s);
                 hdr = buf;
                 buf = hdr + sizeof_hunkHeader;
                 s = write_int s hdr HUNK_MAGIC;
                 s = write_int s (hdr + 4) size'
             in Some (Inr (s, buf)))))"

text \<open>
  \<^verbatim>\<open>Hunk_FreeTempMemory\<close>. In \<^verbatim>\<open>hunk_temp->temp -= hdr->size\<close> the difference is
  formed in \<^verbatim>\<open>unsigned int\<close> and converted back to \<^verbatim>\<open>int\<close>.
\<close>

definition Hunk_FreeTempMemory :: "state \<Rightarrow> addr \<Rightarrow> state result" where
  "Hunk_FreeTempMemory s buf =
     (if s_hunkData s = 0 then Z_Free s buf
      else
       (let hdr = buf - sizeof_hunkHeader
        in if magic (hdrs s hdr) \<noteq> HUNK_MAGIC then
             Com_Error s ERR_FATAL ''Hunk_FreeTempMemory: bad magic''
           else
            (let s = write_int s hdr HUNK_FREE_MAGIC;
                 t = hunk_temp s;
                 s = (if t = hunk_low_ptr then
                        (if hdr = s_hunkData s + temp (bank s t) - size_h (hdrs s hdr)
                         then set_bank s t
                                ((bank s t)\<lparr>temp := to_int (temp (bank s t) - size_h (hdrs s hdr))\<rparr>)
                         else s)
                      else
                        (if hdr = s_hunkData s + s_hunkTotal s - temp (bank s t)
                         then set_bank s t
                                ((bank s t)\<lparr>temp := to_int (temp (bank s t) - size_h (hdrs s hdr))\<rparr>)
                         else s))
             in Inr s)))"

definition Hunk_ClearTempMemory :: "state \<Rightarrow> state" where
  "Hunk_ClearTempMemory s =
     (if s_hunkData s \<noteq> 0
      then set_bank s (hunk_temp s)
             ((bank s (hunk_temp s))\<lparr>temp := permanent (bank s (hunk_temp s))\<rparr>)
      else s)"

section \<open>Initialisation\<close>

definition Com_InitSmallZoneMemory :: "state \<Rightarrow> state" where
  "Com_InitSmallZoneMemory s =
     (let smallZoneSize = 512 * 1024;
          s = Com_Memset s (s_buf s) 0 smallZoneSize;
          s = s\<lparr>smallzone := s_buf s\<rparr>
      in Z_ClearZone s (smallzone s) (smallzone s) smallZoneSize 1)"

definition Com_InitZoneMemory :: "state \<Rightarrow> state result" where
  "Com_InitZoneMemory s =
     (let mainZoneSize = DEF_COMZONEMEGS * 1024 * 1024;
          (s, p) = calloc s mainZoneSize;
          s = s\<lparr>mainzone := p\<rparr>
      in if mainzone s = 0 then
           Com_Error s ERR_FATAL ''Zone data failed to allocate %i megs''
         else Inr (Z_ClearZone s (mainzone s) (mainzone s) mainZoneSize 1))"

definition Com_InitHunkMemory :: "state \<Rightarrow> state result" where
  "Com_InitHunkMemory s =
     (let s = s\<lparr>s_hunkTotal := DEF_COMHUNKMEGS * 1024 * 1024\<rparr>;
          (s, p) = calloc s (s_hunkTotal s + 63);
          s = s\<lparr>s_hunkData := p\<rparr>
      in if s_hunkData s = 0 then
           Com_Error s ERR_FATAL ''Hunk data failed to allocate %i megs''
         else
          (let s = s\<lparr>s_hunkData := PAD (s_hunkData s) 64\<rparr>
           in Inr (Hunk_Clear s)))"

definition Com_Init :: "state \<Rightarrow> state result" where
  "Com_Init s =
     (let s = Com_InitSmallZoneMemory s
      in case Com_InitZoneMemory s of
           Inl e \<Rightarrow> Inl e
         | Inr s \<Rightarrow> Com_InitHunkMemory s)"

text \<open>
  The state of the process before \<^verbatim>\<open>Com_Init\<close>: static storage is zero,
  \<^verbatim>\<open>minfragment\<close> is \<^verbatim>\<open>MINFRAGMENT\<close>, the static buffer lies at \<open>sbuf\<close> and the
  heap is the range from \<open>lo\<close> to \<open>hi\<close>. The two bank pointers are assigned by
  \<^verbatim>\<open>Hunk_Clear\<close> before their first use.
\<close>

definition boot :: "addr \<Rightarrow> addr \<Rightarrow> addr \<Rightarrow> state" where
  "boot sbuf lo hi =
     \<lparr>blocks = (\<lambda>a. zero_memblock), frees = (\<lambda>a. zero_freeblock),
      bytes = (\<lambda>a. 0),
      zone_size = (\<lambda>a. 0), zone_used = (\<lambda>a. 0),
      minfragment = MINFRAGMENT, mainzone = 0, smallzone = 0,
      hunk_low = zero_hunkUsed, hunk_high = zero_hunkUsed,
      hunk_permanent = hunk_low_ptr, hunk_temp = hunk_high_ptr,
      s_hunkData = 0, s_hunkTotal = 0, s_buf = sbuf, brk = lo, heap_end = hi\<rparr>"

text \<open>
  A concrete machine for the examples: the static buffer at 4096, a heap from 1 MiB
  to 1 GiB.
\<close>

definition machine :: state where
  "machine = boot 4096 1048576 1073741824"

text \<open>
  A hunk of 1 MiB whose temp bank (high) has no live allocation and a highwater mark
  of 4096.
\<close>

definition swap_state :: state where
  "swap_state = (Hunk_Clear (boot 0 0 0))
      \<lparr>hunk_high := \<lparr>mark = 0, permanent = 0, temp = 0, tempHighwater = 4096\<rparr>,
       s_hunkData := 64, s_hunkTotal := 1048576\<rparr>"

text \<open>
  The frame whose header lies at \<open>hdr\<close> is the topmost frame of the temp bank's stack:
  on the low bank the frame ends at the temp cursor, on the high bank, which grows
  downwards from the end of the hunk, it starts at the temp cursor.
\<close>

definition topmost :: "state \<Rightarrow> addr \<Rightarrow> bool" where
  "topmost s hdr =
     (if hunk_temp s = hunk_low_ptr
      then hdr + size_h (hdrs s hdr) = s_hunkData s + temp (hunk_low s)
      else hdr = s_hunkData s + (s_hunkTotal s - temp (hunk_high s)))"

text \<open>The values of a C \<^verbatim>\<open>int\<close>.\<close>

definition int_range :: "int \<Rightarrow> bool" where
  "int_range x = (- (2 ^ 31) \<le> x \<and> x < 2 ^ 31)"

text \<open>A static block for the digit 3, as \<^verbatim>\<open>numberstring[3]\<close>, at address 1024.\<close>

definition static_state :: state where
  "static_state = MEM_STATIC machine 1024 0x33"

section \<open>The block list and the free lists of a zone\<close>

text \<open>The fields of the block header, and of the free-list node, at an address.\<close>

definition next_of :: "state \<Rightarrow> addr \<Rightarrow> addr" where
  "next_of s = (\<lambda>a. next_m (blocks s a))"

definition prev_of :: "state \<Rightarrow> addr \<Rightarrow> addr" where
  "prev_of s = (\<lambda>a. prev_m (blocks s a))"

definition size_of :: "state \<Rightarrow> addr \<Rightarrow> int" where
  "size_of s = (\<lambda>a. size_m (blocks s a))"

definition tag_of :: "state \<Rightarrow> addr \<Rightarrow> memtag" where
  "tag_of s = (\<lambda>a. tag_m (blocks s a))"

definition id_of :: "state \<Rightarrow> addr \<Rightarrow> int" where
  "id_of s = (\<lambda>a. id_m (blocks s a))"

definition fnext_of :: "state \<Rightarrow> addr \<Rightarrow> addr" where
  "fnext_of s = (\<lambda>a. next_f (frees s a))"

definition fprev_of :: "state \<Rightarrow> addr \<Rightarrow> addr" where
  "fprev_of s = (\<lambda>a. prev_f (frees s a))"

text \<open>
  A circular doubly linked list: \<open>ring n p xs\<close> says that the distinct nodes \<open>xs\<close>,
  in this order, are linked into a cycle by the successor function \<open>n\<close> and the
  predecessor function \<open>p\<close>.
\<close>

definition link :: "('a \<Rightarrow> 'a) \<Rightarrow> ('a \<Rightarrow> 'a) \<Rightarrow> 'a \<Rightarrow> 'a \<Rightarrow> bool" where
  "link n p x y = (n x = y \<and> p y = x)"

definition ring :: "('a \<Rightarrow> 'a) \<Rightarrow> ('a \<Rightarrow> 'a) \<Rightarrow> 'a list \<Rightarrow> bool" where
  "ring n p xs =
     (xs \<noteq> [] \<and> distinct xs \<and> successively (link n p) xs \<and> link n p (last xs) (hd xs))"

text \<open>
  \<open>zone_blocks s zone bs\<close>: the block list of the zone, walked from
  \<^verbatim>\<open>zone->blocklist.next\<close> until the list head \<^verbatim>\<open>&zone->blocklist\<close> is met again,
  consists of the blocks at the addresses \<open>bs\<close>, in this order.
\<close>

definition zone_blocks :: "state \<Rightarrow> addr \<Rightarrow> addr list \<Rightarrow> bool" where
  "zone_blocks s zone bs = ring (next_of s) (prev_of s) (blocklist zone # bs)"

text \<open>No two blocks that are adjacent in the list are both free.\<close>

definition no_adjacent_free :: "state \<Rightarrow> addr list \<Rightarrow> bool" where
  "no_adjacent_free s bs =
     successively (\<lambda>x y. \<not> (tag_of s x = TAG_FREE \<and> tag_of s y = TAG_FREE)) bs"

text \<open>
  The bytes a block occupies: its \<open>size\<close>, or the 32 bytes of the header for a
  segment separator, whose \<open>size\<close> is 0.
\<close>

definition ext :: "state \<Rightarrow> addr \<Rightarrow> int" where
  "ext s b = (if id_of s b = ZONEID then size_of s b else sizeof_memblock)"

text \<open>The memory of a zone: its \<^verbatim>\<open>memzone_t\<close> and its blocks.\<close>

definition region :: "state \<Rightarrow> addr \<Rightarrow> addr list \<Rightarrow> addr set" where
  "region s zone bs = {zone ..< zone + sizeof_memzone} \<union> (\<Union>b\<in>set bs. {b ..< b + ext s b})"

text \<open>The heads of the three free lists in use (\<^verbatim>\<open>TINY_SIZE\<close> is not defined).\<close>

definition sentinels :: "addr \<Rightarrow> addr list" where
  "sentinels zone = [freelist_small zone, freelist_medium zone, freelist zone]"

text \<open>The head of the free list that \<^verbatim>\<open>InsertFree\<close> chooses for a block.\<close>

definition class_head :: "state \<Rightarrow> addr \<Rightarrow> addr \<Rightarrow> addr" where
  "class_head s zone x =
     (if size_of s x \<le> SMALL_SIZE then freelist_small zone
      else if size_of s x \<le> MEDIUM_SIZE then freelist_medium zone
      else freelist zone)"

text \<open>
  The bytes of the zone in use, as \<^verbatim>\<open>zone->used\<close> counts them: the sizes of the
  blocks in use and the header of every separator.
\<close>

definition used_sum :: "state \<Rightarrow> addr list \<Rightarrow> int" where
  "used_sum s bs = sum_list (map (ext s) (filter (\<lambda>b. tag_of s b \<noteq> TAG_FREE) bs))"

text \<open>
  The invariant of one zone. \<open>bs\<close> is its block list and \<open>F\<close> gives, for the head of
  each free list, the blocks on that list. \<open>P\<close> is the set of free blocks that are
  momentarily on no free list, inside \<^verbatim>\<open>Z_Free\<close> and \<^verbatim>\<open>Z_TagMalloc\<close>; between
  calls it is empty. The parts:
  \<^item> the list: the head and the blocks form a ring; the head is in use and carries
    \<open>-ZONEID\<close>;
  \<^item> every block lies behind the \<^verbatim>\<open>memzone_t\<close> and below \<open>brk\<close>, and is either a
    real block (\<open>ZONEID\<close>, with room for a header and a free-list node) or a separator
    (\<open>-ZONEID\<close>, \<^verbatim>\<open>TAG_GENERAL\<close>, size 0);
  \<^item> the blocks are in address order and do not overlap, and a real block that
    follows a real block starts where that one ends;
  \<^item> two adjacent blocks are both free only if one of them is in \<open>P\<close>;
  \<^item> each free list is a ring of its head and the nodes of its blocks, and together
    the lists hold every free block outside \<open>P\<close> once;
  \<^item> a real block in use ends in the trash sentinel \<open>ZONEID\<close>, and its tag is
    \<^verbatim>\<open>TAG_SMALL\<close> exactly in the small zone;
  \<^item> \<^verbatim>\<open>zone->used\<close> is the sum above, and \<^verbatim>\<open>minfragment\<close> leaves room for a header
    and a free-list node.
\<close>

definition blocks_inv :: "state \<Rightarrow> addr \<Rightarrow> addr list \<Rightarrow> bool" where
  "blocks_inv s zone bs =
     (0 < zone \<and> zone + sizeof_memzone \<le> brk s
      \<and> zone_blocks s zone bs
      \<and> tag_of s (blocklist zone) = TAG_GENERAL \<and> id_of s (blocklist zone) = - ZONEID
      \<and> (\<forall>b\<in>set bs. zone + sizeof_memzone \<le> b \<and> b + ext s b \<le> brk s
            \<and> (id_of s b = ZONEID \<and> 48 \<le> size_of s b
                \<or> id_of s b = - ZONEID \<and> tag_of s b = TAG_GENERAL \<and> size_of s b = 0))
      \<and> sorted_wrt (\<lambda>x y. x + ext s x \<le> y) bs
      \<and> successively
            (\<lambda>x y. id_of s x = ZONEID \<and> id_of s y = ZONEID \<longrightarrow> x + size_of s x = y) bs)"

definition pending_ok :: "state \<Rightarrow> addr set \<Rightarrow> addr list \<Rightarrow> bool" where
  "pending_ok s P bs =
     successively (\<lambda>x y. tag_of s x = TAG_FREE \<and> tag_of s y = TAG_FREE \<longrightarrow> x \<in> P \<or> y \<in> P) bs"

definition free_inv :: "state \<Rightarrow> addr \<Rightarrow> addr list \<Rightarrow> (addr \<Rightarrow> addr list) \<Rightarrow> addr set \<Rightarrow> bool" where
  "free_inv s zone bs F P =
     ((\<forall>k\<in>set (sentinels zone).
          ring (fnext_of s) (fprev_of s) (k # map (\<lambda>b. b + sizeof_memblock) (F k)))
      \<and> (\<forall>k\<in>set (sentinels zone). \<forall>k'\<in>set (sentinels zone).
            k \<noteq> k' \<longrightarrow> set (F k) \<inter> set (F k') = {})
      \<and> (\<Union>k\<in>set (sentinels zone). set (F k)) = {b \<in> set bs. tag_of s b = TAG_FREE} - P
      \<and> P \<subseteq> {b \<in> set bs. tag_of s b = TAG_FREE})"

definition acct_inv :: "state \<Rightarrow> addr \<Rightarrow> addr list \<Rightarrow> bool" where
  "acct_inv s zone bs =
     ((\<forall>b\<in>set bs. id_of s b = ZONEID \<and> tag_of s b \<noteq> TAG_FREE \<longrightarrow>
          read_int s (b + size_of s b - 4) = ZONEID
          \<and> (tag_of s b = TAG_SMALL \<longleftrightarrow> zone = smallzone s))
      \<and> zone_used s zone = used_sum s bs
      \<and> 48 \<le> minfragment s)"

definition zinv :: "state \<Rightarrow> addr \<Rightarrow> addr list \<Rightarrow> (addr \<Rightarrow> addr list) \<Rightarrow> addr set \<Rightarrow> bool" where
  "zinv s zone bs F P =
     (blocks_inv s zone bs \<and> pending_ok s P bs \<and> free_inv s zone bs F P \<and> acct_inv s zone bs)"

text \<open>
  The invariant of the allocator between calls: both zones satisfy theirs, they
  share no memory, and the heap ends below \<open>2^31\<close>, so that every size and every
  sum of sizes is in the range of \<^verbatim>\<open>int\<close>.
\<close>

definition Zinv :: "state \<Rightarrow> bool" where
  "Zinv s =
     (\<exists>bsM FM bsS FS.
         zinv s (mainzone s) bsM FM {} \<and> zinv s (smallzone s) bsS FS {}
         \<and> region s (mainzone s) bsM \<inter> region s (smallzone s) bsS = {}
         \<and> brk s \<le> heap_end s \<and> heap_end s \<le> 2 ^ 31)"

text \<open>
  \<open>same_outside R s s'\<close>: the step from \<open>s\<close> to \<open>s'\<close> has written zone memory only at
  addresses in \<open>R\<close>; the globals of the zone allocator are unchanged and \<open>brk\<close> has
  not decreased.
\<close>

definition same_outside :: "addr set \<Rightarrow> state \<Rightarrow> state \<Rightarrow> bool" where
  "same_outside R s s' =
     ((\<forall>a. a \<notin> R \<longrightarrow> blocks s' a = blocks s a \<and> frees s' a = frees s a
             \<and> bytes s' a = bytes s a \<and> zone_used s' a = zone_used s a
             \<and> zone_size s' a = zone_size s a)
      \<and> minfragment s' = minfragment s \<and> mainzone s' = mainzone s
      \<and> smallzone s' = smallzone s \<and> brk s \<le> brk s' \<and> heap_end s' = heap_end s)"

text \<open>The test that \<^verbatim>\<open>Z_FreeTags\<close> applies to a block: its tag and \<^verbatim>\<open>ZONEID\<close>.\<close>

definition tagged :: "state \<Rightarrow> memtag \<Rightarrow> addr \<Rightarrow> bool" where
  "tagged s t b = (tag_of s b = t \<and> id_of s b = ZONEID)"

text \<open>
  The state a call ends in: the one it returns, or the one it hands to
  \<^verbatim>\<open>Com_Error\<close>.
\<close>

definition result_state :: "(state \<times> 'a) result \<Rightarrow> state" where
  "result_state r = (case r of Inl (c, m, s) \<Rightarrow> s | Inr (s, x) \<Rightarrow> s)"

section \<open>The steps of \<^verbatim>\<open>Z_Free\<close> and \<^verbatim>\<open>Z_TagMalloc\<close>\<close>

text \<open>
  Runs of assignments inside the two functions, named so that the proofs can follow
  them one at a time. \<open>Z_Free_mark\<close>: the block is taken out of the count, its
  payload scribbled over and its header marked free.
\<close>

definition Z_Free_mark :: "state \<Rightarrow> addr \<Rightarrow> addr \<Rightarrow> state" where
  "Z_Free_mark s zone block =
     (let s = set_used s zone (zone_used s zone - size_m (blocks s block));
          s = Com_Memset s (block + sizeof_memblock) 0xaa
                (size_m (blocks s block) - sizeof_memblock);
          s = set_tag s block TAG_FREE;
          s = set_id s block ZONEID
      in s)"

text \<open>\<open>Z_TagMalloc_split\<close>: the free fragment behind the first \<open>size\<close> bytes of \<open>base\<close>.\<close>

definition Z_TagMalloc_split :: "state \<Rightarrow> addr \<Rightarrow> int \<Rightarrow> state" where
  "Z_TagMalloc_split s base size' =
     (let extra = size_m (blocks s base) - size';
          fragment = base + size';
          s = set_size s fragment extra;
          s = set_tag s fragment TAG_FREE;
          s = set_id s fragment ZONEID;
          s = set_prev s fragment base;
          s = set_next s fragment (next_m (blocks s base));
          s = set_prev s (next_m (blocks s fragment)) fragment;
          s = set_next s base fragment;
          s = set_size s base size'
      in s)"

text \<open>\<open>Z_TagMalloc_claim\<close>: the block is counted, tagged and given its trash sentinel.\<close>

definition Z_TagMalloc_claim :: "state \<Rightarrow> addr \<Rightarrow> addr \<Rightarrow> memtag \<Rightarrow> state" where
  "Z_TagMalloc_claim s zone base tag =
     (let s = set_used s zone (zone_used s zone + size_m (blocks s base));
          s = set_tag s base tag;
          s = set_id s base ZONEID;
          s = write_int s (base + size_m (blocks s base) - 4) ZONEID
      in s)"

text \<open>
  \<open>NewBlock_link\<close>: the separator and the block of a new segment at \<open>sep\<close>, linked
  between \<open>prev\<close> and \<open>next\<close>; \<^verbatim>\<open>NewBlock\<close> without its \<^verbatim>\<open>calloc\<close> and its
  \<^verbatim>\<open>InsertFree\<close>.
\<close>

definition NewBlock_link :: "state \<Rightarrow> addr \<Rightarrow> addr \<Rightarrow> addr \<Rightarrow> addr \<Rightarrow> int \<Rightarrow> state" where
  "NewBlock_link s zone prev next sep size' =
     (let alloc_size = to_int (size' + sizeof_memblock);
          block = sep + sizeof_memblock;
          s = set_next s prev sep;
          s = set_prev s sep prev;
          s = set_next s sep block;
          s = set_prev s block sep;
          s = set_next s block next;
          s = set_prev s next block;
          s = set_tag s sep TAG_GENERAL;
          s = set_id s sep (- ZONEID);
          s = set_size s sep 0;
          s = set_tag s block TAG_FREE;
          s = set_id s block ZONEID;
          s = set_size s block size';
          s = set_zsize s zone (zone_size s zone + alloc_size);
          s = set_used s zone (zone_used s zone + sizeof_memblock)
      in s)"
section \<open>Reading the store after an assignment\<close>

declare sizeof_memblock_def [simp] sizeof_freeblock_def [simp] sizeof_intptr_def [simp]
  sizeof_hunkHeader_def [simp] sizeof_memzone_def [simp]

lemma set_next_frame [simp]:
  "frees (set_next s b v) = frees s"
  "bytes (set_next s b v) = bytes s"
  "zone_size (set_next s b v) = zone_size s"
  "zone_used (set_next s b v) = zone_used s"
  "minfragment (set_next s b v) = minfragment s"
  "mainzone (set_next s b v) = mainzone s"
  "smallzone (set_next s b v) = smallzone s"
  "hunk_low (set_next s b v) = hunk_low s"
  "hunk_high (set_next s b v) = hunk_high s"
  "hunk_permanent (set_next s b v) = hunk_permanent s"
  "hunk_temp (set_next s b v) = hunk_temp s"
  "s_hunkData (set_next s b v) = s_hunkData s"
  "s_hunkTotal (set_next s b v) = s_hunkTotal s"
  "s_buf (set_next s b v) = s_buf s"
  "brk (set_next s b v) = brk s"
  "heap_end (set_next s b v) = heap_end s"
  by (simp_all add: set_next_def Let_def)

lemma set_next_blocks [simp]:
  "blocks (set_next s b v) a = (if a = b then (blocks s b)\<lparr>next_m := v\<rparr> else blocks s a)"
  by (simp add: set_next_def Let_def sizeof_memblock_def)

lemma set_prev_frame [simp]:
  "frees (set_prev s b v) = frees s"
  "bytes (set_prev s b v) = bytes s"
  "zone_size (set_prev s b v) = zone_size s"
  "zone_used (set_prev s b v) = zone_used s"
  "minfragment (set_prev s b v) = minfragment s"
  "mainzone (set_prev s b v) = mainzone s"
  "smallzone (set_prev s b v) = smallzone s"
  "hunk_low (set_prev s b v) = hunk_low s"
  "hunk_high (set_prev s b v) = hunk_high s"
  "hunk_permanent (set_prev s b v) = hunk_permanent s"
  "hunk_temp (set_prev s b v) = hunk_temp s"
  "s_hunkData (set_prev s b v) = s_hunkData s"
  "s_hunkTotal (set_prev s b v) = s_hunkTotal s"
  "s_buf (set_prev s b v) = s_buf s"
  "brk (set_prev s b v) = brk s"
  "heap_end (set_prev s b v) = heap_end s"
  by (simp_all add: set_prev_def Let_def)

lemma set_prev_blocks [simp]:
  "blocks (set_prev s b v) a = (if a = b then (blocks s b)\<lparr>prev_m := v\<rparr> else blocks s a)"
  by (simp add: set_prev_def Let_def sizeof_memblock_def)

lemma set_size_frame [simp]:
  "frees (set_size s b v) = frees s"
  "bytes (set_size s b v) = bytes s"
  "zone_size (set_size s b v) = zone_size s"
  "zone_used (set_size s b v) = zone_used s"
  "minfragment (set_size s b v) = minfragment s"
  "mainzone (set_size s b v) = mainzone s"
  "smallzone (set_size s b v) = smallzone s"
  "hunk_low (set_size s b v) = hunk_low s"
  "hunk_high (set_size s b v) = hunk_high s"
  "hunk_permanent (set_size s b v) = hunk_permanent s"
  "hunk_temp (set_size s b v) = hunk_temp s"
  "s_hunkData (set_size s b v) = s_hunkData s"
  "s_hunkTotal (set_size s b v) = s_hunkTotal s"
  "s_buf (set_size s b v) = s_buf s"
  "brk (set_size s b v) = brk s"
  "heap_end (set_size s b v) = heap_end s"
  by (simp_all add: set_size_def Let_def)

lemma set_size_blocks [simp]:
  "blocks (set_size s b v) a = (if a = b then (blocks s b)\<lparr>size_m := v\<rparr> else blocks s a)"
  by (simp add: set_size_def Let_def sizeof_memblock_def)

lemma set_tag_frame [simp]:
  "frees (set_tag s b v) = frees s"
  "bytes (set_tag s b v) = bytes s"
  "zone_size (set_tag s b v) = zone_size s"
  "zone_used (set_tag s b v) = zone_used s"
  "minfragment (set_tag s b v) = minfragment s"
  "mainzone (set_tag s b v) = mainzone s"
  "smallzone (set_tag s b v) = smallzone s"
  "hunk_low (set_tag s b v) = hunk_low s"
  "hunk_high (set_tag s b v) = hunk_high s"
  "hunk_permanent (set_tag s b v) = hunk_permanent s"
  "hunk_temp (set_tag s b v) = hunk_temp s"
  "s_hunkData (set_tag s b v) = s_hunkData s"
  "s_hunkTotal (set_tag s b v) = s_hunkTotal s"
  "s_buf (set_tag s b v) = s_buf s"
  "brk (set_tag s b v) = brk s"
  "heap_end (set_tag s b v) = heap_end s"
  by (simp_all add: set_tag_def Let_def)

lemma set_tag_blocks [simp]:
  "blocks (set_tag s b v) a = (if a = b then (blocks s b)\<lparr>tag_m := v\<rparr> else blocks s a)"
  by (simp add: set_tag_def Let_def sizeof_memblock_def)

lemma set_id_frame [simp]:
  "frees (set_id s b v) = frees s"
  "bytes (set_id s b v) = bytes s"
  "zone_size (set_id s b v) = zone_size s"
  "zone_used (set_id s b v) = zone_used s"
  "minfragment (set_id s b v) = minfragment s"
  "mainzone (set_id s b v) = mainzone s"
  "smallzone (set_id s b v) = smallzone s"
  "hunk_low (set_id s b v) = hunk_low s"
  "hunk_high (set_id s b v) = hunk_high s"
  "hunk_permanent (set_id s b v) = hunk_permanent s"
  "hunk_temp (set_id s b v) = hunk_temp s"
  "s_hunkData (set_id s b v) = s_hunkData s"
  "s_hunkTotal (set_id s b v) = s_hunkTotal s"
  "s_buf (set_id s b v) = s_buf s"
  "brk (set_id s b v) = brk s"
  "heap_end (set_id s b v) = heap_end s"
  by (simp_all add: set_id_def Let_def)

lemma set_id_blocks [simp]:
  "blocks (set_id s b v) a = (if a = b then (blocks s b)\<lparr>id_m := v\<rparr> else blocks s a)"
  by (simp add: set_id_def Let_def sizeof_memblock_def)

lemma InitFree_frame [simp]:
  "frees (InitFree s b) = frees s"
  "bytes (InitFree s b) = bytes s"
  "zone_size (InitFree s b) = zone_size s"
  "zone_used (InitFree s b) = zone_used s"
  "minfragment (InitFree s b) = minfragment s"
  "mainzone (InitFree s b) = mainzone s"
  "smallzone (InitFree s b) = smallzone s"
  "hunk_low (InitFree s b) = hunk_low s"
  "hunk_high (InitFree s b) = hunk_high s"
  "hunk_permanent (InitFree s b) = hunk_permanent s"
  "hunk_temp (InitFree s b) = hunk_temp s"
  "s_hunkData (InitFree s b) = s_hunkData s"
  "s_hunkTotal (InitFree s b) = s_hunkTotal s"
  "s_buf (InitFree s b) = s_buf s"
  "brk (InitFree s b) = brk s"
  "heap_end (InitFree s b) = heap_end s"
  by (simp_all add: InitFree_def Let_def)

lemma InitFree_blocks [simp]:
  "blocks (InitFree s b) a = (if a = b - 32 then zero_memblock else blocks s a)"
  by (simp add: InitFree_def Let_def sizeof_memblock_def)

lemma set_fprev_frame [simp]:
  "blocks (set_fprev s b v) = blocks s"
  "bytes (set_fprev s b v) = bytes s"
  "zone_size (set_fprev s b v) = zone_size s"
  "zone_used (set_fprev s b v) = zone_used s"
  "minfragment (set_fprev s b v) = minfragment s"
  "mainzone (set_fprev s b v) = mainzone s"
  "smallzone (set_fprev s b v) = smallzone s"
  "hunk_low (set_fprev s b v) = hunk_low s"
  "hunk_high (set_fprev s b v) = hunk_high s"
  "hunk_permanent (set_fprev s b v) = hunk_permanent s"
  "hunk_temp (set_fprev s b v) = hunk_temp s"
  "s_hunkData (set_fprev s b v) = s_hunkData s"
  "s_hunkTotal (set_fprev s b v) = s_hunkTotal s"
  "s_buf (set_fprev s b v) = s_buf s"
  "brk (set_fprev s b v) = brk s"
  "heap_end (set_fprev s b v) = heap_end s"
  by (simp_all add: set_fprev_def Let_def)

lemma set_fprev_frees [simp]:
  "frees (set_fprev s b v) a = (if a = b then (frees s b)\<lparr>prev_f := v\<rparr> else frees s a)"
  by (simp add: set_fprev_def Let_def sizeof_memblock_def)

lemma set_fnext_frame [simp]:
  "blocks (set_fnext s b v) = blocks s"
  "bytes (set_fnext s b v) = bytes s"
  "zone_size (set_fnext s b v) = zone_size s"
  "zone_used (set_fnext s b v) = zone_used s"
  "minfragment (set_fnext s b v) = minfragment s"
  "mainzone (set_fnext s b v) = mainzone s"
  "smallzone (set_fnext s b v) = smallzone s"
  "hunk_low (set_fnext s b v) = hunk_low s"
  "hunk_high (set_fnext s b v) = hunk_high s"
  "hunk_permanent (set_fnext s b v) = hunk_permanent s"
  "hunk_temp (set_fnext s b v) = hunk_temp s"
  "s_hunkData (set_fnext s b v) = s_hunkData s"
  "s_hunkTotal (set_fnext s b v) = s_hunkTotal s"
  "s_buf (set_fnext s b v) = s_buf s"
  "brk (set_fnext s b v) = brk s"
  "heap_end (set_fnext s b v) = heap_end s"
  by (simp_all add: set_fnext_def Let_def)

lemma set_fnext_frees [simp]:
  "frees (set_fnext s b v) a = (if a = b then (frees s b)\<lparr>next_f := v\<rparr> else frees s a)"
  by (simp add: set_fnext_def Let_def sizeof_memblock_def)

lemma set_used_frame [simp]:
  "blocks (set_used s b v) = blocks s"
  "frees (set_used s b v) = frees s"
  "bytes (set_used s b v) = bytes s"
  "zone_size (set_used s b v) = zone_size s"
  "minfragment (set_used s b v) = minfragment s"
  "mainzone (set_used s b v) = mainzone s"
  "smallzone (set_used s b v) = smallzone s"
  "hunk_low (set_used s b v) = hunk_low s"
  "hunk_high (set_used s b v) = hunk_high s"
  "hunk_permanent (set_used s b v) = hunk_permanent s"
  "hunk_temp (set_used s b v) = hunk_temp s"
  "s_hunkData (set_used s b v) = s_hunkData s"
  "s_hunkTotal (set_used s b v) = s_hunkTotal s"
  "s_buf (set_used s b v) = s_buf s"
  "brk (set_used s b v) = brk s"
  "heap_end (set_used s b v) = heap_end s"
  by (simp_all add: set_used_def Let_def)

lemma set_used_zone_used [simp]:
  "zone_used (set_used s b v) a = (if a = b then v else zone_used s a)"
  by (simp add: set_used_def Let_def sizeof_memblock_def)

lemma set_zsize_frame [simp]:
  "blocks (set_zsize s b v) = blocks s"
  "frees (set_zsize s b v) = frees s"
  "bytes (set_zsize s b v) = bytes s"
  "zone_used (set_zsize s b v) = zone_used s"
  "minfragment (set_zsize s b v) = minfragment s"
  "mainzone (set_zsize s b v) = mainzone s"
  "smallzone (set_zsize s b v) = smallzone s"
  "hunk_low (set_zsize s b v) = hunk_low s"
  "hunk_high (set_zsize s b v) = hunk_high s"
  "hunk_permanent (set_zsize s b v) = hunk_permanent s"
  "hunk_temp (set_zsize s b v) = hunk_temp s"
  "s_hunkData (set_zsize s b v) = s_hunkData s"
  "s_hunkTotal (set_zsize s b v) = s_hunkTotal s"
  "s_buf (set_zsize s b v) = s_buf s"
  "brk (set_zsize s b v) = brk s"
  "heap_end (set_zsize s b v) = heap_end s"
  by (simp_all add: set_zsize_def Let_def)

lemma set_zsize_zone_size [simp]:
  "zone_size (set_zsize s b v) a = (if a = b then v else zone_size s a)"
  by (simp add: set_zsize_def Let_def sizeof_memblock_def)

lemma Com_Memset_frame [simp]:
  "blocks (Com_Memset s b c n) = blocks s"
  "frees (Com_Memset s b c n) = frees s"
  "zone_size (Com_Memset s b c n) = zone_size s"
  "zone_used (Com_Memset s b c n) = zone_used s"
  "minfragment (Com_Memset s b c n) = minfragment s"
  "mainzone (Com_Memset s b c n) = mainzone s"
  "smallzone (Com_Memset s b c n) = smallzone s"
  "hunk_low (Com_Memset s b c n) = hunk_low s"
  "hunk_high (Com_Memset s b c n) = hunk_high s"
  "hunk_permanent (Com_Memset s b c n) = hunk_permanent s"
  "hunk_temp (Com_Memset s b c n) = hunk_temp s"
  "s_hunkData (Com_Memset s b c n) = s_hunkData s"
  "s_hunkTotal (Com_Memset s b c n) = s_hunkTotal s"
  "s_buf (Com_Memset s b c n) = s_buf s"
  "brk (Com_Memset s b c n) = brk s"
  "heap_end (Com_Memset s b c n) = heap_end s"
  by (simp_all add: Com_Memset_def Let_def)

lemma Com_Memset_bytes [simp]:
  "bytes (Com_Memset s b c n) a = (if b \<le> a \<and> a < b + n then c else bytes s a)"
  by (simp add: Com_Memset_def Let_def sizeof_memblock_def)

lemma write_int_frame [simp]:
  "blocks (write_int s b v) = blocks s"
  "frees (write_int s b v) = frees s"
  "zone_size (write_int s b v) = zone_size s"
  "zone_used (write_int s b v) = zone_used s"
  "minfragment (write_int s b v) = minfragment s"
  "mainzone (write_int s b v) = mainzone s"
  "smallzone (write_int s b v) = smallzone s"
  "hunk_low (write_int s b v) = hunk_low s"
  "hunk_high (write_int s b v) = hunk_high s"
  "hunk_permanent (write_int s b v) = hunk_permanent s"
  "hunk_temp (write_int s b v) = hunk_temp s"
  "s_hunkData (write_int s b v) = s_hunkData s"
  "s_hunkTotal (write_int s b v) = s_hunkTotal s"
  "s_buf (write_int s b v) = s_buf s"
  "brk (write_int s b v) = brk s"
  "heap_end (write_int s b v) = heap_end s"
  by (simp_all add: write_int_def Let_def)

lemma write_int_bytes [simp]:
  "bytes (write_int s b v) a = (if a = b + 3 then word_of_int (v div 16777216) else if a = b + 2 then word_of_int (v div 65536) else if a = b + 1 then word_of_int (v div 256) else if a = b then word_of_int v else bytes s a)"
  by (simp add: write_int_def Let_def sizeof_memblock_def)


lemma bank_set_bank [simp]:
  "bank (set_bank s p v) q = (if q = p then v else bank s q)"
  by (cases p; cases q) (simp_all add: bank_def set_bank_def)




lemma InsertFree_frame [simp]:
  "blocks (InsertFree s z b) = blocks s"
  "bytes (InsertFree s z b) = bytes s"
  "zone_size (InsertFree s z b) = zone_size s"
  "zone_used (InsertFree s z b) = zone_used s"
  "minfragment (InsertFree s z b) = minfragment s"
  "mainzone (InsertFree s z b) = mainzone s"
  "smallzone (InsertFree s z b) = smallzone s"
  "hunk_low (InsertFree s z b) = hunk_low s"
  "hunk_high (InsertFree s z b) = hunk_high s"
  "hunk_permanent (InsertFree s z b) = hunk_permanent s"
  "hunk_temp (InsertFree s z b) = hunk_temp s"
  "s_hunkData (InsertFree s z b) = s_hunkData s"
  "s_hunkTotal (InsertFree s z b) = s_hunkTotal s"
  "s_buf (InsertFree s z b) = s_buf s"
  "brk (InsertFree s z b) = brk s"
  "heap_end (InsertFree s z b) = heap_end s"
  by (simp_all add: InsertFree_def Let_def)

lemma Z_ClearZone_frame [simp]:
  "bytes (Z_ClearZone s z h n k) = bytes s"
  "mainzone (Z_ClearZone s z h n k) = mainzone s"
  "smallzone (Z_ClearZone s z h n k) = smallzone s"
  "hunk_low (Z_ClearZone s z h n k) = hunk_low s"
  "hunk_high (Z_ClearZone s z h n k) = hunk_high s"
  "hunk_permanent (Z_ClearZone s z h n k) = hunk_permanent s"
  "hunk_temp (Z_ClearZone s z h n k) = hunk_temp s"
  "s_hunkData (Z_ClearZone s z h n k) = s_hunkData s"
  "s_hunkTotal (Z_ClearZone s z h n k) = s_hunkTotal s"
  "s_buf (Z_ClearZone s z h n k) = s_buf s"
  "brk (Z_ClearZone s z h n k) = brk s"
  "heap_end (Z_ClearZone s z h n k) = heap_end s"
  by (simp_all add: Z_ClearZone_def Let_def)


lemma set_bank_frame [simp]:
  "blocks (set_bank s p v) = blocks s"
  "frees (set_bank s p v) = frees s"
  "bytes (set_bank s p v) = bytes s"
  "zone_size (set_bank s p v) = zone_size s"
  "zone_used (set_bank s p v) = zone_used s"
  "minfragment (set_bank s p v) = minfragment s"
  "mainzone (set_bank s p v) = mainzone s"
  "smallzone (set_bank s p v) = smallzone s"
  "hunk_permanent (set_bank s p v) = hunk_permanent s"
  "hunk_temp (set_bank s p v) = hunk_temp s"
  "s_hunkData (set_bank s p v) = s_hunkData s"
  "s_hunkTotal (set_bank s p v) = s_hunkTotal s"
  "s_buf (set_bank s p v) = s_buf s"
  "brk (set_bank s p v) = brk s"
  "heap_end (set_bank s p v) = heap_end s"
  by (cases p; simp add: set_bank_def)+

lemma bank_frame:
  "hunk_low s' = hunk_low s \<Longrightarrow> hunk_high s' = hunk_high s \<Longrightarrow> bank s' p = bank s p"
  by (cases p) (simp_all add: bank_def)

lemma bank_write_int [simp]: "bank (write_int s b v) p = bank s p"
  by (rule bank_frame) simp_all

lemma bank_Com_Memset [simp]: "bank (Com_Memset s b c n) p = bank s p"
  by (rule bank_frame) simp_all

lemma Hunk_SwapBanks_frame [simp]:
  "blocks (Hunk_SwapBanks s) = blocks s"
  "frees (Hunk_SwapBanks s) = frees s"
  "bytes (Hunk_SwapBanks s) = bytes s"
  "hunk_low (Hunk_SwapBanks s) = hunk_low s"
  "hunk_high (Hunk_SwapBanks s) = hunk_high s"
  "s_hunkData (Hunk_SwapBanks s) = s_hunkData s"
  "s_hunkTotal (Hunk_SwapBanks s) = s_hunkTotal s"
  by (simp_all add: Hunk_SwapBanks_def Let_def)

lemma bank_Hunk_SwapBanks [simp]: "bank (Hunk_SwapBanks s) p = bank s p"
  by (rule bank_frame) simp_all

lemma hdrs_cong: "bytes s' = bytes s \<Longrightarrow> hdrs s' = hdrs s"
  by (simp add: hdrs_def read_uint_def fun_eq_iff)

lemma hdrs_set_bank [simp]: "hdrs (set_bank s p v) = hdrs s"
  by (rule hdrs_cong) simp

lemma hdrs_Hunk_SwapBanks [simp]: "hdrs (Hunk_SwapBanks s) = hdrs s"
  by (rule hdrs_cong) simp

lemma hdrs_hunk_update [simp]:
  "hdrs (hunk_low_update f s) = hdrs s" "hdrs (hunk_high_update f s) = hdrs s"
  by (rule hdrs_cong, simp)+

lemma bytes32: "k mod 256 + 256 * (k div 256 mod 256) + 65536 * (k div 65536 mod 256)
    + 16777216 * (k div 16777216 mod 256) = k mod 4294967296" for k :: int
proof -
  have a: "k mod 65536 = 256 * (k div 256 mod 256) + k mod 256"
    using zmod_zmult2_eq [of 256 k 256] by simp
  have b: "k div 65536 mod 65536 = 256 * (k div 65536 div 256 mod 256) + k div 65536 mod 256"
    using zmod_zmult2_eq [of 256 "k div 65536" 256] by simp
  have c: "k div 65536 div 256 = k div 16777216"
    using zdiv_zmult2_eq [of 256 k 65536] by simp
  have d: "k mod 4294967296 = 65536 * (k div 65536 mod 65536) + k mod 65536"
    using zmod_zmult2_eq [of 65536 k 65536] by simp
  show ?thesis unfolding d a b c by simp
qed

lemma uint_byte: "uint (word_of_int k :: 8 word) = k mod 256"
  by (simp add: uint_word_of_int take_bit_eq_mod)

lemma read_uint_write_int [simp]: "read_uint (write_int s p v) p = to_uint v"
proof -
  have "read_uint (write_int s p v) p = v mod 256 + 256 * (v div 256 mod 256)
      + 65536 * (v div 65536 mod 256) + 16777216 * (v div 16777216 mod 256)"
    by (simp add: read_uint_def write_int_def uint_byte)
  also have "\<dots> = v mod 4294967296" by (rule bytes32)
  finally show ?thesis by (simp add: to_uint_def)
qed

lemma read_uint_write_int_other:
  "q + 3 < p \<or> p + 3 < q \<Longrightarrow> read_uint (write_int s p v) q = read_uint s q"
  by (auto simp: read_uint_def)

lemma read_uint_range: "0 \<le> read_uint s p \<and> read_uint s p < 2 ^ 32"
proof -
  have "\<And>w :: 8 word. 0 \<le> uint w \<and> uint w \<le> 255"
    using uint_bounded [where 'a = 8] by (simp add: zle_diff1_eq [symmetric] del: zle_diff1_eq)
  from this [of "bytes s p"] this [of "bytes s (p + 1)"] this [of "bytes s (p + 2)"]
    this [of "bytes s (p + 3)"]
  show ?thesis by (simp add: read_uint_def)
qed

lemma to_uint_magic [simp]:
  "to_uint HUNK_MAGIC = HUNK_MAGIC" "to_uint HUNK_FREE_MAGIC = HUNK_FREE_MAGIC"
  "HUNK_MAGIC mod 4294967296 = HUNK_MAGIC" "HUNK_FREE_MAGIC mod 4294967296 = HUNK_FREE_MAGIC"
  by (simp_all add: to_uint_def HUNK_MAGIC_def HUNK_FREE_MAGIC_def)

lemma hdrs_write_magic [simp]:
  "hdrs (write_int s hdr v) hdr = \<lparr>magic = to_uint v, size_h = size_h (hdrs s hdr)\<rparr>"
  by (simp add: hdrs_def read_uint_write_int_other)

lemma hdrs_write_size [simp]:
  "hdrs (write_int s (hdr + 4) v) hdr = \<lparr>magic = magic (hdrs s hdr), size_h = to_uint v\<rparr>"
  by (simp add: hdrs_def read_uint_write_int_other)

lemma hdrs_write_other:
  "a + 8 \<le> p \<or> p + 4 \<le> a \<Longrightarrow> hdrs (write_int s p v) a = hdrs s a"
  by (auto simp: hdrs_def read_uint_write_int_other)

lemma hdrs_Com_Memset_zero:
  "b \<le> a \<Longrightarrow> a + 8 \<le> b + n \<Longrightarrow> hdrs (Com_Memset s b 0 n) a = \<lparr>magic = 0, size_h = 0\<rparr>"
  by (simp add: hdrs_def read_uint_def)

lemma PAD_64: "PAD x 64 mod 64 = 0 \<and> x \<le> PAD x 64 \<and> PAD x 64 < x + 64"
  unfolding PAD_def by presburger

lemma PAD_8: "PAD x 8 mod 8 = 0 \<and> x \<le> PAD x 8 \<and> PAD x 8 < x + 8"
  unfolding PAD_def by presburger

lemma Com_Init_machine:
  "\<exists>s. Com_Init machine = Inr s \<and> hunk_low s = zero_hunkUsed \<and> hunk_high s = zero_hunkUsed
      \<and> hunk_permanent s = hunk_low_ptr \<and> hunk_temp s = hunk_high_ptr
      \<and> s_hunkData s = 13631488 \<and> s_hunkTotal s = 58720256"
  by (simp add: Com_Init_def Com_InitSmallZoneMemory_def Com_InitZoneMemory_def Com_InitHunkMemory_def
        calloc_def Let_def machine_def boot_def DEF_COMZONEMEGS_def DEF_COMHUNKMEGS_def Hunk_Clear_def PAD_def Com_Error_def)
section \<open>The hunk\<close>

lemma to_int_id: "int_range x \<Longrightarrow> to_int x = x"
  by (simp add: int_range_def to_int_def)

lemma to_uint_id: "0 \<le> x \<Longrightarrow> x < 2 ^ 32 \<Longrightarrow> to_uint x = x"
  by (simp add: to_uint_def)

lemma to_size_t_id: "0 \<le> x \<Longrightarrow> x < 2 ^ 64 \<Longrightarrow> to_size_t x = x"
  by (simp add: to_size_t_def)

lemma to_int_add_to_int: "to_int (a + to_int b) = to_int (a + b)"
proof -
  have "(a + ((b + 2147483648) mod 4294967296 - 2147483648) + 2147483648) mod 4294967296
      = (a + (b + 2147483648) mod 4294967296) mod 4294967296"
    by (simp add: algebra_simps)
  also have "\<dots> = (a + (b + 2147483648)) mod 4294967296"
    by (rule mod_add_right_eq)
  finally show ?thesis by (simp add: to_int_def algebra_simps)
qed

lemma to_int_range: "int_range (to_int x)"
  by (simp add: int_range_def to_int_def)

lemma Hunk_AllocateTempMemory_unfold:
  assumes "s_hunkData s \<noteq> 0"
  shows "Hunk_AllocateTempMemory s size' =
    (let s1 = Hunk_SwapBanks s; n = to_int (PAD size' 8 + 8); t = hunk_temp s1
     in if to_int (temp (bank s t) + permanent (bank s (hunk_permanent s1)) + n) > s_hunkTotal s
        then Some (Com_Error s1 ERR_DROP ''Hunk_AllocateTempMemory: failed on %i'')
        else
         (let c = to_int (temp (bank s t) + n);
              hdr = (if t = hunk_low_ptr then s_hunkData s + temp (bank s t)
                     else s_hunkData s + s_hunkTotal s - c);
              s2 = set_bank s1 t ((bank s t)\<lparr>temp := c\<rparr>);
              s3 = (if c > tempHighwater (bank s t)
                    then set_bank s2 t ((bank s t)\<lparr>temp := c, tempHighwater := c\<rparr>)
                    else s2)
          in Some (Inr (write_int (write_int s3 hdr HUNK_MAGIC) (hdr + 4) n, hdr + 8))))"
  using assms
  apply (simp add: Hunk_AllocateTempMemory_def sizeof_intptr_def sizeof_hunkHeader_def)
  apply (simp add: Let_def split: prod.splits)
  done

subsection \<open>C5: swapping the banks\<close>



subsection \<open>C6: permanent allocation\<close>

text \<open>
  C6, as stated for every \<open>size \<ge> 0\<close>, fails at the top of the range of \<^verbatim>\<open>int\<close>:
  \<^verbatim>\<open>PAD( size, 64 )\<close> is formed in \<^verbatim>\<open>int\<close>, so for \<open>size = 2147483647\<close> the rounded
  size is \<open>-2147483648\<close>. Right after \<^verbatim>\<open>Com_Init\<close> the rounded size
  \<open>2147483648\<close> exceeds the total of 56 MiB, yet \<^verbatim>\<open>Hunk_Alloc\<close> raises no error
  and moves both cursors of the low bank to \<open>-2147483648\<close>.
\<close>

theorem Hunk_Alloc_overflow_counterexample:
  "case Com_Init machine of
     Inl e \<Rightarrow> False
   | Inr s \<Rightarrow>
      s_hunkData s \<noteq> 0
      \<and> temp (hunk_low s) + temp (hunk_high s) + PAD 2147483647 64 > s_hunkTotal s
      \<and> (case Hunk_Alloc s 2147483647 h_low of
            Inl e \<Rightarrow> False
          | Inr (s', buf) \<Rightarrow>
              permanent (hunk_low s') = - 2147483648 \<and> temp (hunk_low s') = - 2147483648)"
proof -
  obtain s where s: "Com_Init machine = Inr s" "hunk_low s = zero_hunkUsed"
      "hunk_high s = zero_hunkUsed" "hunk_permanent s = hunk_low_ptr"
      "hunk_temp s = hunk_high_ptr" "s_hunkData s = 13631488" "s_hunkTotal s = 58720256"
    using Com_Init_machine by blast
  show ?thesis
    by (simp add: s Hunk_Alloc_def Hunk_SwapBanks_def bank_def set_bank_def zero_hunkUsed_def
          PAD_def to_int_def Let_def)
qed

text \<open>
  C6, amended. Take an initialised hunk on which both banks have
  \<open>0 \<le> permanent \<le> temp\<close>, and a \<open>size \<ge> 0\<close> for which \<open>low.temp + high.temp\<close>
  plus \<open>PAD size 64\<close>, the least multiple of 64 that is at least \<open>size\<close>, is below
  \<open>2^31\<close>. If that sum exceeds the total, \<^verbatim>\<open>Hunk_Alloc\<close> ends in \<^verbatim>\<open>ERR_DROP\<close> and
  the state handed to the error has the counters of both banks as they were.
  Otherwise it returns: when the permanent bank is the low one, the pointer is
  \<open>base + permanent\<close> taken before the cursor advances; when it is the high one, the
  cursor advances first and the pointer is \<open>base + (total - permanent)\<close>. Every byte
  of the returned region is zero, so that every temp-frame header read inside it is
  zero as well, and the permanent bank's \<open>temp\<close> equals its \<open>permanent\<close>.
\<close>

theorem Hunk_Alloc_spec:
  assumes "0 \<le> size'" and "s_hunkData s \<noteq> 0"
    and "0 \<le> permanent (hunk_low s)" and "permanent (hunk_low s) \<le> temp (hunk_low s)"
    and "0 \<le> permanent (hunk_high s)" and "permanent (hunk_high s) \<le> temp (hunk_high s)"
    and "temp (hunk_low s) + temp (hunk_high s) + PAD size' 64 < 2 ^ 31"
  shows "PAD size' 64 mod 64 = 0 \<and> size' \<le> PAD size' 64 \<and> PAD size' 64 < size' + 64
    \<and> (temp (hunk_low s) + temp (hunk_high s) + PAD size' 64 > s_hunkTotal s \<longrightarrow>
         (\<exists>s1. Hunk_Alloc s size' preference = Inl (ERR_DROP, ''Hunk_Alloc failed on %i'', s1)
            \<and> hunk_low s1 = hunk_low s \<and> hunk_high s1 = hunk_high s))
    \<and> (temp (hunk_low s) + temp (hunk_high s) + PAD size' 64 \<le> s_hunkTotal s \<longrightarrow>
         (\<exists>s' buf. Hunk_Alloc s size' preference = Inr (s', buf)
            \<and> (hunk_permanent s' = hunk_low_ptr \<longrightarrow>
                  buf = s_hunkData s + permanent (hunk_low s)
                  \<and> permanent (hunk_low s') = permanent (hunk_low s) + PAD size' 64)
            \<and> (hunk_permanent s' = hunk_high_ptr \<longrightarrow>
                  permanent (hunk_high s') = permanent (hunk_high s) + PAD size' 64
                  \<and> buf = s_hunkData s + (s_hunkTotal s - permanent (hunk_high s')))
            \<and> (\<forall>a. buf \<le> a \<and> a < buf + PAD size' 64 \<longrightarrow> bytes s' a = 0)
            \<and> (\<forall>a. buf \<le> a \<and> a + 8 \<le> buf + PAD size' 64 \<longrightarrow>
                  hdrs s' a = \<lparr>magic = 0, size_h = 0\<rparr>)
            \<and> temp (bank s' (hunk_permanent s')) = permanent (bank s' (hunk_permanent s'))))"
proof -
  define n where "n = PAD size' 64"
  define s1 where "s1 = (if preference = h_dontcare
                    \<or> temp (bank s (hunk_temp s)) \<noteq> permanent (bank s (hunk_temp s))
                 then Hunk_SwapBanks s
                 else if preference = h_low \<and> hunk_permanent s \<noteq> hunk_low_ptr
                 then Hunk_SwapBanks s
                 else if preference = h_high \<and> hunk_permanent s \<noteq> hunk_high_ptr
                 then Hunk_SwapBanks s
                 else s)"
  have fr: "hunk_low s1 = hunk_low s" "hunk_high s1 = hunk_high s" "s_hunkData s1 = s_hunkData s"
      "s_hunkTotal s1 = s_hunkTotal s"
    by (simp_all add: s1_def)
  have pad: "n mod 64 = 0" "size' \<le> n" "n < size' + 64"
    using PAD_64 [of size'] by (simp_all add: n_def)
  have n0: "0 \<le> n" using pad(2) assms(1) by simp
  have r: "to_int n = n" "to_size_t n = n"
    "to_int (temp (hunk_low s) + temp (hunk_high s) + n) = temp (hunk_low s) + temp (hunk_high s) + n"
    "to_int (permanent (hunk_low s) + n) = permanent (hunk_low s) + n"
    "to_int (permanent (hunk_high s) + n) = permanent (hunk_high s) + n"
    using assms(3-7) n0 by (simp_all add: n_def [symmetric] to_int_def to_size_t_def)
  have unf: "Hunk_Alloc s size' preference =
     (if to_int (temp (hunk_low s1) + temp (hunk_high s1) + to_int n) > s_hunkTotal s1 then
             Com_Error s1 ERR_DROP ''Hunk_Alloc failed on %i''
           else
            (let p = hunk_permanent s1;
                 (s2, buf) =
                   (if p = hunk_low_ptr then
                      (let buf = s_hunkData s1 + permanent (bank s1 p);
                           s2 = set_bank s1 p
                                  ((bank s1 p)\<lparr>permanent := to_int (permanent (bank s1 p) + to_int n)\<rparr>)
                       in (s2, buf))
                    else
                      (let s2 = set_bank s1 p
                                  ((bank s1 p)\<lparr>permanent := to_int (permanent (bank s1 p) + to_int n)\<rparr>);
                           buf = s_hunkData s2 + s_hunkTotal s2 - permanent (bank s2 p)
                       in (s2, buf)));
                 s3 = set_bank s2 p ((bank s2 p)\<lparr>temp := permanent (bank s2 p)\<rparr>);
                 s4 = Com_Memset s3 buf 0 (to_size_t (to_int n))
             in Inr (s4, buf)))"
    using assms(2) by (simp add: Hunk_Alloc_def s1_def n_def Let_def)
  have z: "hdrs (Com_Memset s' b 0 n) a = \<lparr>magic = 0, size_h = 0\<rparr>"
    if "b \<le> a \<and> a + 8 \<le> b + n" for s' b a
    using that by (intro hdrs_Com_Memset_zero) simp_all
  show ?thesis
    unfolding n_def [symmetric]
  proof (cases "hunk_permanent s1")
    case hunk_low_ptr
    then show "n mod 64 = 0 \<and> size' \<le> n \<and> n < size' + 64
    \<and> (temp (hunk_low s) + temp (hunk_high s) + n > s_hunkTotal s \<longrightarrow>
         (\<exists>s1. Hunk_Alloc s size' preference = Inl (ERR_DROP, ''Hunk_Alloc failed on %i'', s1)
            \<and> hunk_low s1 = hunk_low s \<and> hunk_high s1 = hunk_high s))
    \<and> (temp (hunk_low s) + temp (hunk_high s) + n \<le> s_hunkTotal s \<longrightarrow>
         (\<exists>s' buf. Hunk_Alloc s size' preference = Inr (s', buf)
            \<and> (hunk_permanent s' = hunk_low_ptr \<longrightarrow>
                  buf = s_hunkData s + permanent (hunk_low s)
                  \<and> permanent (hunk_low s') = permanent (hunk_low s) + n)
            \<and> (hunk_permanent s' = hunk_high_ptr \<longrightarrow>
                  permanent (hunk_high s') = permanent (hunk_high s) + n
                  \<and> buf = s_hunkData s + (s_hunkTotal s - permanent (hunk_high s')))
            \<and> (\<forall>a. buf \<le> a \<and> a < buf + n \<longrightarrow> bytes s' a = 0)
            \<and> (\<forall>a. buf \<le> a \<and> a + 8 \<le> buf + n \<longrightarrow>
                  hdrs s' a = \<lparr>magic = 0, size_h = 0\<rparr>)
            \<and> temp (bank s' (hunk_permanent s')) = permanent (bank s' (hunk_permanent s'))))"
      using pad
      by (simp add: unf fr r z Let_def Com_Error_def bank_def set_bank_def)
  next
    case hunk_high_ptr
    then show "n mod 64 = 0 \<and> size' \<le> n \<and> n < size' + 64
    \<and> (temp (hunk_low s) + temp (hunk_high s) + n > s_hunkTotal s \<longrightarrow>
         (\<exists>s1. Hunk_Alloc s size' preference = Inl (ERR_DROP, ''Hunk_Alloc failed on %i'', s1)
            \<and> hunk_low s1 = hunk_low s \<and> hunk_high s1 = hunk_high s))
    \<and> (temp (hunk_low s) + temp (hunk_high s) + n \<le> s_hunkTotal s \<longrightarrow>
         (\<exists>s' buf. Hunk_Alloc s size' preference = Inr (s', buf)
            \<and> (hunk_permanent s' = hunk_low_ptr \<longrightarrow>
                  buf = s_hunkData s + permanent (hunk_low s)
                  \<and> permanent (hunk_low s') = permanent (hunk_low s) + n)
            \<and> (hunk_permanent s' = hunk_high_ptr \<longrightarrow>
                  permanent (hunk_high s') = permanent (hunk_high s) + n
                  \<and> buf = s_hunkData s + (s_hunkTotal s - permanent (hunk_high s')))
            \<and> (\<forall>a. buf \<le> a \<and> a < buf + n \<longrightarrow> bytes s' a = 0)
            \<and> (\<forall>a. buf \<le> a \<and> a + 8 \<le> buf + n \<longrightarrow>
                  hdrs s' a = \<lparr>magic = 0, size_h = 0\<rparr>)
            \<and> temp (bank s' (hunk_permanent s')) = permanent (bank s' (hunk_permanent s'))))"
      using pad
      by (simp add: unf fr r z Let_def Com_Error_def bank_def set_bank_def)
  qed
qed

text \<open>
  \<^verbatim>\<open>Hunk_Alloc( 1000, h_low )\<close> right after \<^verbatim>\<open>Com_Init\<close>: the region starts at the
  base of the hunk and is 1024 bytes long.
\<close>

theorem Hunk_Alloc_spec_witness:
  "case Com_Init machine of
     Inl e \<Rightarrow> False
   | Inr s \<Rightarrow>
      (0::int) \<le> 1000 \<and> s_hunkData s \<noteq> 0
      \<and> 0 \<le> permanent (hunk_low s) \<and> permanent (hunk_low s) \<le> temp (hunk_low s)
      \<and> 0 \<le> permanent (hunk_high s) \<and> permanent (hunk_high s) \<le> temp (hunk_high s)
      \<and> temp (hunk_low s) + temp (hunk_high s) + PAD 1000 64 < 2 ^ 31
      \<and> (case Hunk_Alloc s 1000 h_low of
            Inl e \<Rightarrow> False
          | Inr (s', buf) \<Rightarrow>
              buf = s_hunkData s \<and> permanent (hunk_low s') = 1024 \<and> temp (hunk_low s') = 1024
              \<and> bytes s' (buf + 1023) = 0 \<and> magic (hdrs s' (buf + 1016)) = 0)"
proof -
  obtain s where s: "Com_Init machine = Inr s" "hunk_low s = zero_hunkUsed"
      "hunk_high s = zero_hunkUsed" "hunk_permanent s = hunk_low_ptr"
      "hunk_temp s = hunk_high_ptr" "s_hunkData s = 13631488" "s_hunkTotal s = 58720256"
    using Com_Init_machine by blast
  have n: "s_hunkData s \<noteq> 0" by (simp add: s)
  have p: "PAD 1000 64 = 1024" by (simp add: PAD_def)
  have "hunk_permanent s' = hunk_low_ptr" if "Hunk_Alloc s 1000 h_low = Inr (s', buf)" for s' buf
    using that
    by (auto simp: Hunk_Alloc_def s p Com_Error_def Hunk_SwapBanks_def bank_def set_bank_def
          zero_hunkUsed_def Let_def split: if_splits)
  then show ?thesis
    using Hunk_Alloc_spec [of 1000 s h_low] n
    by (auto simp: s p zero_hunkUsed_def bank_def)
qed

subsection \<open>C3: the highwater mark\<close>




subsection \<open>C4: freeing temp memory\<close>


text \<open>
  A pointer that \<^verbatim>\<open>Hunk_AllocateTempMemory\<close> has just returned heads a frame with
  the magic \<^verbatim>\<open>HUNK_MAGIC\<close>, and that frame is the topmost one, as long as the
  advanced cursor stays in the range of \<^verbatim>\<open>int\<close>.
\<close>

lemma Hunk_AllocateTempMemory_topmost:
  assumes "s_hunkData s \<noteq> 0" and "0 \<le> size'"
    and "\<forall>p. 0 \<le> temp (bank s p) \<and> temp (bank s p) + (PAD size' 8 + 8) < 2 ^ 31"
    and "Hunk_AllocateTempMemory s size' = Some (Inr (s', buf))"
  shows "magic (hdrs s' (buf - 8)) = HUNK_MAGIC \<and> size_h (hdrs s' (buf - 8)) = PAD size' 8 + 8
    \<and> topmost s' (buf - 8) \<and> s_hunkData s' \<noteq> 0
    \<and> temp (bank s' (hunk_temp s')) = temp (bank s (hunk_temp s')) + (PAD size' 8 + 8)"
proof -
  define n where "n = PAD size' 8 + 8"
  have n8: "8 \<le> n" using PAD_8 [of size'] assms(2) by (simp add: n_def)
  have r: "0 \<le> temp (bank s p)" "temp (bank s p) + n < 2 ^ 31" for p
    using assms(3) by (simp_all add: n_def)
  have nr: "n < 2 ^ 31" using r(1) [of hunk_low_ptr] r(2) [of hunk_low_ptr] by simp
  have u: "to_int n = n" "to_uint n = n" "to_int (temp (bank s p) + n) = temp (bank s p) + n" for p
    using n8 nr r(1) [of p] r(2) [of p] by (simp_all add: to_int_def to_uint_def)
  have m: "to_uint HUNK_MAGIC = HUNK_MAGIC" by (simp add: to_uint_def HUNK_MAGIC_def)
  have h: "hdrs (write_int (write_int s0 a HUNK_MAGIC) (a + 4) n) a
      = \<lparr>magic = HUNK_MAGIC, size_h = n\<rparr>" for s0 a
    by (simp add: m u)
  show ?thesis
    using assms(1,4) u(3) [of hunk_low_ptr] u(3) [of hunk_high_ptr]
    unfolding n_def [symmetric]
    by (cases "hunk_temp (Hunk_SwapBanks s)")
       (auto simp: Hunk_AllocateTempMemory_unfold [OF assms(1)] n_def [symmetric] u(1,2) h Let_def
          Com_Error_def topmost_def bank_def set_bank_def split: if_splits)
qed


section \<open>The invariant of the zone allocator\<close>


subsection \<open>Rings\<close>

lemma succ_link_frame:
  "successively (link n p) xs \<Longrightarrow> (\<And>x. x \<in> set (butlast xs) \<Longrightarrow> n' x = n x)
    \<Longrightarrow> (\<And>x. x \<in> set (tl xs) \<Longrightarrow> p' x = p x) \<Longrightarrow> successively (link n' p') xs"
  by (induction xs rule: induct_list012) (auto simp: link_def)

lemma ring_frame:
  "ring n p xs \<Longrightarrow> (\<And>x. x \<in> set xs \<Longrightarrow> n' x = n x \<and> p' x = p x) \<Longrightarrow> ring n' p' xs"
  unfolding ring_def
  by (auto intro!: succ_link_frame dest: in_set_butlastD list.set_sel(2) simp: link_def)

lemma ring_rotate: "ring n p (xs @ ys) \<longleftrightarrow> ring n p (ys @ xs)"
  unfolding ring_def
  by (cases "xs = []"; cases "ys = []") (auto simp: successively_append_iff)

lemma ring_next:
  "ring n p (pre @ a # post) \<Longrightarrow> n a = hd (post @ pre @ [a])"
  unfolding ring_def
  by (cases pre; cases post) (auto simp: successively_append_iff successively_Cons link_def)

lemma ring_prev:
  "ring n p (pre @ a # post) \<Longrightarrow> p a = last (a # post @ pre)"
  unfolding ring_def
  by (cases pre rule: rev_cases; cases post rule: rev_cases)
     (auto simp: successively_append_iff successively_Cons link_def split: if_splits)

lemma ring_insert_last:
  assumes "ring n p (xs @ [a])" and "f \<notin> set (xs @ [a])"
    and "c = hd (xs @ [a])"
    and "n' a = f" "n' f = c" "p' f = a" "p' c = f"
    and "\<And>x. x \<noteq> a \<Longrightarrow> x \<noteq> f \<Longrightarrow> n' x = n x"
    and "\<And>x. x \<noteq> f \<Longrightarrow> x \<noteq> c \<Longrightarrow> p' x = p x"
  shows "ring n' p' (xs @ [a, f])"
proof -
  have d: "distinct (xs @ [a])" and s: "successively (link n p) (xs @ [a])"
    using assms(1) by (auto simp: ring_def)
  have "successively (link n' p') (xs @ [a])"
  proof (rule succ_link_frame [OF s])
    fix x assume "x \<in> set (butlast (xs @ [a]))"
    then show "n' x = n x" using d assms(2) by (intro assms(8)) auto
  next
    fix x assume "x \<in> set (tl (xs @ [a]))"
    then have "x \<in> set (xs @ [a])" "x \<noteq> hd (xs @ [a])"
      using d by (cases xs; auto)+
    then show "p' x = p x" using assms(2,3) by (intro assms(9)) auto
  qed
  then have "successively (link n' p') ((xs @ [a]) @ [f])"
    using assms(4,6) by (simp add: successively_append_iff link_def)
  moreover have "link n' p' f c" using assms(5,7) by (simp add: link_def)
  ultimately show ?thesis
    using d assms(2,3) by (cases xs) (auto simp: ring_def)
qed

lemma ring_insert:
  assumes "ring n p (pre @ a # post)" and "f \<notin> set (pre @ a # post)"
    and "c = hd (post @ pre @ [a])"
    and "n' a = f" "n' f = c" "p' f = a" "p' c = f"
    and "\<And>x. x \<noteq> a \<Longrightarrow> x \<noteq> f \<Longrightarrow> n' x = n x"
    and "\<And>x. x \<noteq> f \<Longrightarrow> x \<noteq> c \<Longrightarrow> p' x = p x"
  shows "ring n' p' (pre @ a # f # post)"
proof -
  have "ring n p ((post @ pre) @ [a])"
    using assms(1) ring_rotate [of n p "pre @ [a]" post] by simp
  then have "ring n' p' ((post @ pre) @ [a, f])"
    using assms(2-) by (intro ring_insert_last [where n = n and p = p and c = c]) auto
  then show ?thesis
    using ring_rotate [of n' p' post "pre @ [a, f]"] by simp
qed

lemma ring_remove_last:
  assumes "ring n p (xs @ [a])" and "xs \<noteq> []"
    and "n' (last xs) = hd xs" "p' (hd xs) = last xs"
    and "\<And>x. x \<noteq> last xs \<Longrightarrow> n' x = n x"
    and "\<And>x. x \<noteq> hd xs \<Longrightarrow> p' x = p x"
  shows "ring n' p' xs"
proof -
  have d: "distinct (xs @ [a])" and s: "successively (link n p) (xs @ [a])"
    using assms(1) by (auto simp: ring_def)
  then have s0: "successively (link n p) xs" by (simp add: successively_append_iff)
  have "successively (link n' p') xs"
  proof (rule succ_link_frame [OF s0])
    fix x assume "x \<in> set (butlast xs)"
    then have "x \<noteq> last xs" using d assms(2)
      by (metis append_butlast_last_id distinct_append distinct.simps(2) disjoint_iff
            list.set_intros(1))
    then show "n' x = n x" by (rule assms(5))
  next
    fix x assume "x \<in> set (tl xs)"
    then have "x \<noteq> hd xs" using d assms(2) by (cases xs) auto
    then show "p' x = p x" by (rule assms(6))
  qed
  then show ?thesis
    using d assms(2,3,4) by (simp add: ring_def link_def)
qed

lemma ring_remove:
  assumes "ring n p (pre @ a # post)" and "pre @ post \<noteq> []"
    and "pv = last (post @ pre)" and "nx = hd (post @ pre)"
    and "n' pv = nx" "p' nx = pv"
    and "\<And>x. x \<noteq> pv \<Longrightarrow> n' x = n x"
    and "\<And>x. x \<noteq> nx \<Longrightarrow> p' x = p x"
  shows "ring n' p' (pre @ post)"
proof -
  have "ring n p ((post @ pre) @ [a])"
    using assms(1) ring_rotate [of n p "pre @ [a]" post] by simp
  moreover have "post @ pre \<noteq> []" using assms(2) by auto
  moreover have "n' (last (post @ pre)) = hd (post @ pre)"
    using assms(3,4,5) by simp
  moreover have "p' (hd (post @ pre)) = last (post @ pre)"
    using assms(3,4,6) by simp
  ultimately have "ring n' p' (post @ pre)"
  proof (rule ring_remove_last)
    fix x assume "x \<noteq> last (post @ pre)"
    then show "n' x = n x" using assms(3) by (intro assms(7)) simp
  next
    fix x assume "x \<noteq> hd (post @ pre)"
    then show "p' x = p x" using assms(4) by (intro assms(8)) simp
  qed
  then show ?thesis
    using ring_rotate [of n' p' post pre] by simp
qed


lemma ring_distinct: "ring n p xs \<Longrightarrow> distinct xs"
  by (simp add: ring_def)

lemma last_app_Cons_mem: "last (xs @ k # ys) \<in> set (k # ys)"
  by (simp add: last_append)

lemma hd_app_Cons_mem: "hd (xs @ k # ys) \<in> set (k # xs)"
  by (cases xs) auto

lemma rings_remove:
  assumes R: "\<And>k. k \<in> K \<Longrightarrow> ring n p (k # map f (F k))"
    and D: "\<And>k k'. k \<in> K \<Longrightarrow> k' \<in> K \<Longrightarrow> k \<noteq> k' \<Longrightarrow> set (F k) \<inter> set (F k') = {}"
    and I: "inj f"
    and S: "\<And>k k' y. k \<in> K \<Longrightarrow> k' \<in> K \<Longrightarrow> y \<in> set (F k') \<Longrightarrow> f y \<noteq> k"
    and k0: "k0 \<in> K" and x: "x \<in> set (F k0)"
    and n': "n' = n(p (f x) := n (f x))" and p': "p' = p(n (f x) := p (f x))"
    and F': "F' = F(k0 := remove1 x (F k0))"
  shows "(\<forall>k\<in>K. ring n' p' (k # map f (F' k)))
     \<and> (\<forall>k\<in>K. \<forall>k'\<in>K. k \<noteq> k' \<longrightarrow> set (F' k) \<inter> set (F' k') = {})
     \<and> (\<Union>k\<in>K. set (F' k)) = (\<Union>k\<in>K. set (F k)) - {x}
     \<and> p (f x) \<in> set (k0 # map f (F k0)) \<and> n (f x) \<in> set (k0 # map f (F k0))"
proof -
  obtain pre post where sp: "F k0 = pre @ x # post" "x \<notin> set pre"
    using x by (meson split_list_first)
  have r0: "ring n p ((k0 # map f pre) @ f x # map f post)"
    using R [OF k0] sp by simp
  have d0: "distinct (F k0)"
    using ring_distinct [OF R [OF k0]] by (simp add: distinct_map)
  then have xpost: "x \<notin> set post" using sp by auto
  have rm: "remove1 x (F k0) = pre @ post"
    using sp by (simp add: remove1_append)
  have pv: "p (f x) = last (map f post @ k0 # map f pre)"
    using ring_prev [OF r0] by simp
  have nx: "n (f x) = hd (map f post @ k0 # map f pre)"
    using ring_next [OF r0] by (cases post) auto
  have pvin: "p (f x) \<in> set (k0 # map f (F k0))"
    unfolding pv sp using last_app_Cons_mem [of "map f post" k0 "map f pre"] by auto
  have nxin: "n (f x) \<in> set (k0 # map f (F k0))"
    unfolding nx sp by (cases post) auto
  have other: "y \<noteq> p (f x) \<and> y \<noteq> n (f x)"
    if "k \<in> K" "k \<noteq> k0" "y \<in> set (k # map f (F k))" for k y
  proof -
    have "y \<notin> set (k0 # map f (F k0))"
      using that D [OF that(1) k0 that(2)] S [OF k0 that(1)] S [OF that(1) k0] I
      by (auto simp: inj_eq)
    then show ?thesis using pvin nxin by metis
  qed
  have ring0: "ring n' p' (k0 # map f (F' k0))"
  proof -
    have "ring n' p' ((k0 # map f pre) @ map f post)"
    proof (rule ring_remove [OF r0])
      show "(k0 # map f pre) @ map f post \<noteq> []" by simp
      show "p (f x) = last (map f post @ k0 # map f pre)" by (rule pv)
      show "n (f x) = hd (map f post @ k0 # map f pre)" by (rule nx)
    qed (simp_all add: n' p')
    then show ?thesis by (simp add: F' rm)
  qed
  have rings: "ring n' p' (k # map f (F' k))" if "k \<in> K" for k
  proof (cases "k = k0")
    case True
    then show ?thesis using ring0 by simp
  next
    case False
    have "ring n' p' (k # map f (F k))"
      by (rule ring_frame [OF R [OF that]]) (use other [OF that False] in \<open>auto simp: n' p'\<close>)
    then show ?thesis using False by (simp add: F')
  qed
  have sub: "set (F' k) \<subseteq> set (F k)" for k
    using set_remove1_subset [of x "F k0"] by (auto simp: F')
  have disj: "set (F' k) \<inter> set (F' k') = {}" if "k \<in> K" "k' \<in> K" "k \<noteq> k'" for k k'
    using D [OF that] sub [of k] sub [of k'] by blast
  have un: "(\<Union>k\<in>K. set (F' k)) = (\<Union>k\<in>K. set (F k)) - {x}"
  proof -
    have a: "set (F' k0) = set (F k0) - {x}"
      using d0 by (simp add: F')
    have b: "set (F' k) = set (F k) - {x}" if "k \<in> K" "k \<noteq> k0" for k
      using D [OF that(1) k0 that(2)] x that by (auto simp: F')
    have "set (F' k) = set (F k) - {x}" if "k \<in> K" for k
      using a b that by (cases "k = k0") auto
    then show ?thesis by auto
  qed
  show ?thesis using rings disj un pvin nxin by blast
qed

lemma rings_insert:
  assumes R: "\<And>k. k \<in> K \<Longrightarrow> ring n p (k # map f (F k))"
    and D: "\<And>k k'. k \<in> K \<Longrightarrow> k' \<in> K \<Longrightarrow> k \<noteq> k' \<Longrightarrow> set (F k) \<inter> set (F k') = {}"
    and I: "inj f"
    and S: "\<And>k k' y. k \<in> K \<Longrightarrow> k' \<in> K \<Longrightarrow> y \<in> set (F k') \<Longrightarrow> f y \<noteq> k"
    and k0: "k0 \<in> K" and x: "\<And>k. k \<in> K \<Longrightarrow> x \<notin> set (F k)" and fx: "f x \<notin> K"
    and n': "n' = n(k0 := f x, f x := n k0)" and p': "p' = (p(n k0 := f x))(f x := k0)"
    and F': "F' = F(k0 := x # F k0)"
  shows "(\<forall>k\<in>K. ring n' p' (k # map f (F' k)))
     \<and> (\<forall>k\<in>K. \<forall>k'\<in>K. k \<noteq> k' \<longrightarrow> set (F' k) \<inter> set (F' k') = {})
     \<and> (\<Union>k\<in>K. set (F' k)) = insert x (\<Union>k\<in>K. set (F k))"
proof -
  have r0: "ring n p ([] @ k0 # map f (F k0))"
    using R [OF k0] by simp
  have c: "n k0 = hd (map f (F k0) @ [k0])"
    using ring_next [OF r0] by simp
  have cin: "n k0 \<in> set (k0 # map f (F k0))"
    unfolding c by (cases "F k0") auto
  have fxn: "f x \<notin> set (k0 # map f (F k0))"
    using x [OF k0] fx k0 I by (auto simp: inj_eq)
  have ring0: "ring n' p' (k0 # map f (F' k0))"
  proof -
    have "ring n' p' ([] @ k0 # f x # map f (F k0))"
    proof (rule ring_insert [OF r0 _ _])
      show "f x \<notin> set ([] @ k0 # map f (F k0))" using fxn by simp
      show "n k0 = hd (map f (F k0) @ [] @ [k0])" using c by simp
      show "n' k0 = f x" using fxn by (auto simp: n')
      show "n' (f x) = n k0" by (simp add: n')
      show "p' (f x) = k0" by (simp add: p')
      show "p' (n k0) = f x" using cin fxn by (auto simp: p' image_iff)
    qed (auto simp: n' p')
    then show ?thesis by (simp add: F')
  qed
  have other: "y \<noteq> k0 \<and> y \<noteq> f x \<and> y \<noteq> n k0"
    if "k \<in> K" "k \<noteq> k0" "y \<in> set (k # map f (F k))" for k y
  proof -
    have "y \<notin> set (k0 # map f (F k0))"
      using that D [OF that(1) k0 that(2)] S [OF k0 that(1)] S [OF that(1) k0] I
      by (auto simp: inj_eq)
    moreover have "y \<noteq> f x"
      using that x [OF that(1)] fx I by (auto simp: inj_eq)
    ultimately show ?thesis using cin by auto
  qed
  have rings: "ring n' p' (k # map f (F' k))" if "k \<in> K" for k
  proof (cases "k = k0")
    case True
    then show ?thesis using ring0 by simp
  next
    case False
    have "ring n' p' (k # map f (F k))"
      by (rule ring_frame [OF R [OF that]]) (use other [OF that False] in \<open>auto simp: n' p'\<close>)
    then show ?thesis using False by (simp add: F')
  qed
  have disj: "set (F' k) \<inter> set (F' k') = {}" if "k \<in> K" "k' \<in> K" "k \<noteq> k'" for k k'
    using D [OF that] x [OF that(1)] x [OF that(2)] that(3) by (auto simp: F')
  have un: "(\<Union>k\<in>K. set (F' k)) = insert x (\<Union>k\<in>K. set (F k))"
    using k0 by (auto simp: F' split: if_splits)
  show ?thesis using rings disj un by blast
qed


subsection \<open>The fields after an assignment\<close>

lemma set_next_abs [simp]:
  "next_of (set_next s b v) = (next_of s)(b := v)"
  "prev_of (set_next s b v) = prev_of s"
  "size_of (set_next s b v) = size_of s"
  "tag_of (set_next s b v) = tag_of s"
  "id_of (set_next s b v) = id_of s"
  "fnext_of (set_next s b v) = fnext_of s"
  "fprev_of (set_next s b v) = fprev_of s"
  "read_int (set_next s b v) = read_int s"
  by (auto simp: next_of_def prev_of_def size_of_def tag_of_def id_of_def fnext_of_def fprev_of_def read_int_def fun_eq_iff)

lemma set_prev_abs [simp]:
  "next_of (set_prev s b v) = next_of s"
  "prev_of (set_prev s b v) = (prev_of s)(b := v)"
  "size_of (set_prev s b v) = size_of s"
  "tag_of (set_prev s b v) = tag_of s"
  "id_of (set_prev s b v) = id_of s"
  "fnext_of (set_prev s b v) = fnext_of s"
  "fprev_of (set_prev s b v) = fprev_of s"
  "read_int (set_prev s b v) = read_int s"
  by (auto simp: next_of_def prev_of_def size_of_def tag_of_def id_of_def fnext_of_def fprev_of_def read_int_def fun_eq_iff)

lemma set_size_abs [simp]:
  "next_of (set_size s b v) = next_of s"
  "prev_of (set_size s b v) = prev_of s"
  "size_of (set_size s b v) = (size_of s)(b := v)"
  "tag_of (set_size s b v) = tag_of s"
  "id_of (set_size s b v) = id_of s"
  "fnext_of (set_size s b v) = fnext_of s"
  "fprev_of (set_size s b v) = fprev_of s"
  "read_int (set_size s b v) = read_int s"
  by (auto simp: next_of_def prev_of_def size_of_def tag_of_def id_of_def fnext_of_def fprev_of_def read_int_def fun_eq_iff)

lemma set_tag_abs [simp]:
  "next_of (set_tag s b v) = next_of s"
  "prev_of (set_tag s b v) = prev_of s"
  "size_of (set_tag s b v) = size_of s"
  "tag_of (set_tag s b v) = (tag_of s)(b := v)"
  "id_of (set_tag s b v) = id_of s"
  "fnext_of (set_tag s b v) = fnext_of s"
  "fprev_of (set_tag s b v) = fprev_of s"
  "read_int (set_tag s b v) = read_int s"
  by (auto simp: next_of_def prev_of_def size_of_def tag_of_def id_of_def fnext_of_def fprev_of_def read_int_def fun_eq_iff)

lemma set_id_abs [simp]:
  "next_of (set_id s b v) = next_of s"
  "prev_of (set_id s b v) = prev_of s"
  "size_of (set_id s b v) = size_of s"
  "tag_of (set_id s b v) = tag_of s"
  "id_of (set_id s b v) = (id_of s)(b := v)"
  "fnext_of (set_id s b v) = fnext_of s"
  "fprev_of (set_id s b v) = fprev_of s"
  "read_int (set_id s b v) = read_int s"
  by (auto simp: next_of_def prev_of_def size_of_def tag_of_def id_of_def fnext_of_def fprev_of_def read_int_def fun_eq_iff)

lemma set_fnext_abs [simp]:
  "next_of (set_fnext s b v) = next_of s"
  "prev_of (set_fnext s b v) = prev_of s"
  "size_of (set_fnext s b v) = size_of s"
  "tag_of (set_fnext s b v) = tag_of s"
  "id_of (set_fnext s b v) = id_of s"
  "fnext_of (set_fnext s b v) = (fnext_of s)(b := v)"
  "fprev_of (set_fnext s b v) = fprev_of s"
  "read_int (set_fnext s b v) = read_int s"
  by (auto simp: next_of_def prev_of_def size_of_def tag_of_def id_of_def fnext_of_def fprev_of_def read_int_def fun_eq_iff)

lemma set_fprev_abs [simp]:
  "next_of (set_fprev s b v) = next_of s"
  "prev_of (set_fprev s b v) = prev_of s"
  "size_of (set_fprev s b v) = size_of s"
  "tag_of (set_fprev s b v) = tag_of s"
  "id_of (set_fprev s b v) = id_of s"
  "fnext_of (set_fprev s b v) = fnext_of s"
  "fprev_of (set_fprev s b v) = (fprev_of s)(b := v)"
  "read_int (set_fprev s b v) = read_int s"
  by (auto simp: next_of_def prev_of_def size_of_def tag_of_def id_of_def fnext_of_def fprev_of_def read_int_def fun_eq_iff)

lemma set_used_abs [simp]:
  "next_of (set_used s b v) = next_of s"
  "prev_of (set_used s b v) = prev_of s"
  "size_of (set_used s b v) = size_of s"
  "tag_of (set_used s b v) = tag_of s"
  "id_of (set_used s b v) = id_of s"
  "fnext_of (set_used s b v) = fnext_of s"
  "fprev_of (set_used s b v) = fprev_of s"
  "read_int (set_used s b v) = read_int s"
  by (auto simp: next_of_def prev_of_def size_of_def tag_of_def id_of_def fnext_of_def fprev_of_def read_int_def fun_eq_iff)

lemma set_zsize_abs [simp]:
  "next_of (set_zsize s b v) = next_of s"
  "prev_of (set_zsize s b v) = prev_of s"
  "size_of (set_zsize s b v) = size_of s"
  "tag_of (set_zsize s b v) = tag_of s"
  "id_of (set_zsize s b v) = id_of s"
  "fnext_of (set_zsize s b v) = fnext_of s"
  "fprev_of (set_zsize s b v) = fprev_of s"
  "read_int (set_zsize s b v) = read_int s"
  by (auto simp: next_of_def prev_of_def size_of_def tag_of_def id_of_def fnext_of_def fprev_of_def read_int_def fun_eq_iff)

lemma Com_Memset_abs [simp]:
  "next_of (Com_Memset s b c n) = next_of s"
  "prev_of (Com_Memset s b c n) = prev_of s"
  "size_of (Com_Memset s b c n) = size_of s"
  "tag_of (Com_Memset s b c n) = tag_of s"
  "id_of (Com_Memset s b c n) = id_of s"
  "fnext_of (Com_Memset s b c n) = fnext_of s"
  "fprev_of (Com_Memset s b c n) = fprev_of s"
  by (auto simp: next_of_def prev_of_def size_of_def tag_of_def id_of_def fnext_of_def fprev_of_def Com_Memset_def fun_eq_iff)

lemma write_int_abs [simp]:
  "next_of (write_int s b v) = next_of s"
  "prev_of (write_int s b v) = prev_of s"
  "size_of (write_int s b v) = size_of s"
  "tag_of (write_int s b v) = tag_of s"
  "id_of (write_int s b v) = id_of s"
  "fnext_of (write_int s b v) = fnext_of s"
  "fprev_of (write_int s b v) = fprev_of s"
  by (auto simp: next_of_def prev_of_def size_of_def tag_of_def id_of_def fnext_of_def fprev_of_def write_int_def fun_eq_iff)

lemma ext_cong:
  "id_of s' = id_of s \<Longrightarrow> size_of s' = size_of s \<Longrightarrow> ext s' = ext s"
  by (simp add: ext_def fun_eq_iff)

lemma region_cong:
  "id_of s' = id_of s \<Longrightarrow> size_of s' = size_of s \<Longrightarrow> region s' z bs = region s z bs"
  using ext_cong [of s' s] by (simp add: region_def)

lemma used_sum_cong:
  "id_of s' = id_of s \<Longrightarrow> size_of s' = size_of s \<Longrightarrow> tag_of s' = tag_of s
    \<Longrightarrow> used_sum s' bs = used_sum s bs"
  using ext_cong [of s' s] by (simp add: used_sum_def)

lemma blocks_inv_cong:
  "next_of s' = next_of s \<Longrightarrow> prev_of s' = prev_of s \<Longrightarrow> id_of s' = id_of s
    \<Longrightarrow> size_of s' = size_of s \<Longrightarrow> tag_of s' = tag_of s \<Longrightarrow> brk s' = brk s
    \<Longrightarrow> blocks_inv s' z bs = blocks_inv s z bs"
  using ext_cong [of s' s] by (simp add: blocks_inv_def zone_blocks_def)

lemma pending_ok_cong:
  "tag_of s' = tag_of s \<Longrightarrow> pending_ok s' P bs = pending_ok s P bs"
  by (simp add: pending_ok_def)

lemma free_inv_cong:
  "fnext_of s' = fnext_of s \<Longrightarrow> fprev_of s' = fprev_of s \<Longrightarrow> tag_of s' = tag_of s
    \<Longrightarrow> free_inv s' z bs F P = free_inv s z bs F P"
  by (simp add: free_inv_def)

lemma acct_inv_cong:
  "id_of s' = id_of s \<Longrightarrow> size_of s' = size_of s \<Longrightarrow> tag_of s' = tag_of s
    \<Longrightarrow> read_int s' = read_int s \<Longrightarrow> zone_used s' z = zone_used s z
    \<Longrightarrow> smallzone s' = smallzone s \<Longrightarrow> minfragment s' = minfragment s
    \<Longrightarrow> acct_inv s' z bs = acct_inv s z bs"
  using used_sum_cong [of s' s bs] by (simp add: acct_inv_def)


lemma RemoveFree_frame [simp]:
  "blocks (RemoveFree s x) = blocks s"
  "bytes (RemoveFree s x) = bytes s"
  "zone_size (RemoveFree s x) = zone_size s"
  "zone_used (RemoveFree s x) = zone_used s"
  "minfragment (RemoveFree s x) = minfragment s"
  "mainzone (RemoveFree s x) = mainzone s"
  "smallzone (RemoveFree s x) = smallzone s"
  "hunk_low (RemoveFree s x) = hunk_low s"
  "hunk_high (RemoveFree s x) = hunk_high s"
  "hunk_permanent (RemoveFree s x) = hunk_permanent s"
  "hunk_temp (RemoveFree s x) = hunk_temp s"
  "s_hunkData (RemoveFree s x) = s_hunkData s"
  "s_hunkTotal (RemoveFree s x) = s_hunkTotal s"
  "s_buf (RemoveFree s x) = s_buf s"
  "brk (RemoveFree s x) = brk s"
  "heap_end (RemoveFree s x) = heap_end s"
  by (simp_all add: RemoveFree_def Let_def )

lemma MergeBlock_frame [simp]:
  "frees (MergeBlock s c n) = frees s"
  "bytes (MergeBlock s c n) = bytes s"
  "zone_size (MergeBlock s c n) = zone_size s"
  "zone_used (MergeBlock s c n) = zone_used s"
  "minfragment (MergeBlock s c n) = minfragment s"
  "mainzone (MergeBlock s c n) = mainzone s"
  "smallzone (MergeBlock s c n) = smallzone s"
  "hunk_low (MergeBlock s c n) = hunk_low s"
  "hunk_high (MergeBlock s c n) = hunk_high s"
  "hunk_permanent (MergeBlock s c n) = hunk_permanent s"
  "hunk_temp (MergeBlock s c n) = hunk_temp s"
  "s_hunkData (MergeBlock s c n) = s_hunkData s"
  "s_hunkTotal (MergeBlock s c n) = s_hunkTotal s"
  "s_buf (MergeBlock s c n) = s_buf s"
  "brk (MergeBlock s c n) = brk s"
  "heap_end (MergeBlock s c n) = heap_end s"
  by (simp_all add: MergeBlock_def Let_def )


lemmas folds =
  next_of_def [THEN fun_cong, symmetric] prev_of_def [THEN fun_cong, symmetric]
  size_of_def [THEN fun_cong, symmetric] tag_of_def [THEN fun_cong, symmetric]
  id_of_def [THEN fun_cong, symmetric] fnext_of_def [THEN fun_cong, symmetric]
  fprev_of_def [THEN fun_cong, symmetric]

lemma blocks_same_abs:
  "blocks s' = blocks s \<Longrightarrow>
     next_of s' = next_of s \<and> prev_of s' = prev_of s \<and> size_of s' = size_of s
     \<and> tag_of s' = tag_of s \<and> id_of s' = id_of s"
  by (simp add: next_of_def prev_of_def size_of_def tag_of_def id_of_def)

lemma read_int_cong: "bytes s' = bytes s \<Longrightarrow> read_int s' = read_int s"
  by (simp add: read_int_def fun_eq_iff)

lemma RemoveFree_abs [simp]:
  "next_of (RemoveFree s x) = next_of s"
  "prev_of (RemoveFree s x) = prev_of s"
  "size_of (RemoveFree s x) = size_of s"
  "tag_of (RemoveFree s x) = tag_of s"
  "id_of (RemoveFree s x) = id_of s"
  "read_int (RemoveFree s x) = read_int s"
  "fnext_of (RemoveFree s x) = (fnext_of s)(fprev_of s (x + 32) := fnext_of s (x + 32))"
  "fprev_of (RemoveFree s x) = (fprev_of s)(fnext_of s (x + 32) := fprev_of s (x + 32))"
  using blocks_same_abs [of "RemoveFree s x" s] read_int_cong [of "RemoveFree s x" s]
  by (simp_all add: RemoveFree_def Let_def folds)

lemma InsertFree_abs [simp]:
  "next_of (InsertFree s z x) = next_of s"
  "prev_of (InsertFree s z x) = prev_of s"
  "size_of (InsertFree s z x) = size_of s"
  "tag_of (InsertFree s z x) = tag_of s"
  "id_of (InsertFree s z x) = id_of s"
  "read_int (InsertFree s z x) = read_int s"
  using blocks_same_abs [of "InsertFree s z x" s] read_int_cong [of "InsertFree s z x" s]
  by simp_all

lemma InsertFree_fabs:
  "fnext_of (InsertFree s z x) =
     (fnext_of s)(class_head s z x := x + 32, x + 32 := fnext_of s (class_head s z x))"
  "fprev_of (InsertFree s z x) =
     ((fprev_of s)(fnext_of s (class_head s z x) := x + 32))(x + 32 := class_head s z x)"
  by (simp_all add: InsertFree_def Let_def folds class_head_def)

lemma MergeBlock_abs [simp]:
  "tag_of (MergeBlock s c n) = tag_of s"
  "id_of (MergeBlock s c n) = id_of s"
  "fnext_of (MergeBlock s c n) = fnext_of s"
  "fprev_of (MergeBlock s c n) = fprev_of s"
  "read_int (MergeBlock s c n) = read_int s"
  "size_of (MergeBlock s c n) = (size_of s)(c := size_of s c + size_of s n)"
  "next_of (MergeBlock s c n) = (next_of s)(c := next_of s n)"
  "prev_of (MergeBlock s c n) = (prev_of s)(next_of s n := c)"
  using read_int_cong [of "MergeBlock s c n" s]
  by (simp_all add: fnext_of_def fprev_of_def) (simp_all add: MergeBlock_def Let_def folds)


subsection \<open>Facts from the invariant\<close>

lemma sentinels_set: "set (sentinels z) = {z + 120, z + 168, z + 216}"
  by (auto simp: sentinels_def freelist_small_def freelist_medium_def freelist_def)

lemma class_head_sentinel [simp]: "class_head s z x \<in> set (sentinels z)"
  by (simp add: class_head_def sentinels_def)

lemma zinvD:
  assumes "zinv s z bs F P"
  shows "blocks_inv s z bs" "pending_ok s P bs" "free_inv s z bs F P" "acct_inv s z bs"
  using assms by (simp_all add: zinv_def)

lemma free_invD:
  assumes "free_inv s z bs F P"
  shows "\<And>k. k \<in> set (sentinels z) \<Longrightarrow>
           ring (fnext_of s) (fprev_of s) (k # map (\<lambda>b. b + 32) (F k))"
    and "\<And>k k'. k \<in> set (sentinels z) \<Longrightarrow> k' \<in> set (sentinels z) \<Longrightarrow> k \<noteq> k'
           \<Longrightarrow> set (F k) \<inter> set (F k') = {}"
    and "(\<Union>k\<in>set (sentinels z). set (F k)) = {b \<in> set bs. tag_of s b = TAG_FREE} - P"
    and "P \<subseteq> {b \<in> set bs. tag_of s b = TAG_FREE}"
  using assms unfolding free_inv_def by simp_all

lemma blocks_invD:
  assumes "blocks_inv s z bs"
  shows "0 < z" "z + 232 \<le> brk s" "zone_blocks s z bs"
    "tag_of s (blocklist z) = TAG_GENERAL" "id_of s (blocklist z) = - ZONEID"
    "\<And>b. b \<in> set bs \<Longrightarrow> z + 232 \<le> b \<and> b + ext s b \<le> brk s
        \<and> (id_of s b = ZONEID \<and> 48 \<le> size_of s b
            \<or> id_of s b = - ZONEID \<and> tag_of s b = TAG_GENERAL \<and> size_of s b = 0)"
    "sorted_wrt (\<lambda>x y. x + ext s x \<le> y) bs"
    "successively (\<lambda>x y. id_of s x = ZONEID \<and> id_of s y = ZONEID \<longrightarrow> x + size_of s x = y) bs"
  using assms unfolding blocks_inv_def by simp_all

lemma free_block_facts:
  assumes "blocks_inv s z bs" and "y \<in> set bs" and "tag_of s y = TAG_FREE"
  shows "z + 232 \<le> y" "id_of s y = ZONEID" "48 \<le> size_of s y"
    "y + size_of s y \<le> brk s" "ext s y = size_of s y"
proof -
  have "z + 232 \<le> y \<and> y + ext s y \<le> brk s
      \<and> (id_of s y = ZONEID \<and> 48 \<le> size_of s y
          \<or> id_of s y = - ZONEID \<and> tag_of s y = TAG_GENERAL \<and> size_of s y = 0)"
    by (rule blocks_invD(6) [OF assms(1,2)])
  then show "z + 232 \<le> y" "id_of s y = ZONEID" "48 \<le> size_of s y"
    "y + size_of s y \<le> brk s" "ext s y = size_of s y"
    using assms(3) by (auto simp: ext_def)
qed

lemma zinv_F:
  assumes "zinv s z bs F P" and "k \<in> set (sentinels z)" and "y \<in> set (F k)"
  shows "y \<in> set bs" "tag_of s y = TAG_FREE" "y \<notin> P" "z + 232 \<le> y" "id_of s y = ZONEID"
    "48 \<le> size_of s y" "y + size_of s y \<le> brk s" "ext s y = size_of s y"
proof -
  have "y \<in> (\<Union>k\<in>set (sentinels z). set (F k))" using assms(2,3) by blast
  then have "y \<in> {b \<in> set bs. tag_of s b = TAG_FREE} - P"
    by (simp only: free_invD(3) [OF zinvD(3) [OF assms(1)]])
  then show a: "y \<in> set bs" "tag_of s y = TAG_FREE" "y \<notin> P" by auto
  show "z + 232 \<le> y" "id_of s y = ZONEID" "48 \<le> size_of s y"
    "y + size_of s y \<le> brk s" "ext s y = size_of s y"
    by (rule free_block_facts [OF zinvD(1) [OF assms(1)] a(1,2)])+
qed

lemma zinv_P:
  assumes "zinv s z bs F P" and "y \<in> P"
  shows "y \<in> set bs" "tag_of s y = TAG_FREE" "z + 232 \<le> y" "id_of s y = ZONEID"
    "48 \<le> size_of s y" "y + size_of s y \<le> brk s" "ext s y = size_of s y"
    "\<And>k. k \<in> set (sentinels z) \<Longrightarrow> y \<notin> set (F k)"
proof -
  have "y \<in> {b \<in> set bs. tag_of s b = TAG_FREE}"
    using free_invD(4) [OF zinvD(3) [OF assms(1)]] assms(2) by blast
  then show a: "y \<in> set bs" "tag_of s y = TAG_FREE" by auto
  show "z + 232 \<le> y" "id_of s y = ZONEID" "48 \<le> size_of s y"
    "y + size_of s y \<le> brk s" "ext s y = size_of s y"
    by (rule free_block_facts [OF zinvD(1) [OF assms(1)] a(1,2)])+
  show "y \<notin> set (F k)" if "k \<in> set (sentinels z)" for k
    using zinv_F(3) [OF assms(1) that] assms(2) by blast
qed

lemma pending_ok_mono: "pending_ok s P bs \<Longrightarrow> P \<subseteq> P' \<Longrightarrow> pending_ok s P' bs"
  unfolding pending_ok_def by (erule successively_mono) auto

lemma region_zone: "a \<in> {z ..< z + 232} \<Longrightarrow> a \<in> region s z bs"
  by (simp add: region_def)

lemma region_block: "b \<in> set bs \<Longrightarrow> b \<le> a \<Longrightarrow> a < b + ext s b \<Longrightarrow> a \<in> region s z bs"
  by (auto simp: region_def)

lemma ring_elems_region:
  assumes "zinv s z bs F P" and "k \<in> set (sentinels z)"
    and "a \<in> set (k # map (\<lambda>b. b + 32) (F k))"
  shows "a \<in> region s z bs"
proof (cases "a = k")
  case True
  then show ?thesis using assms(2) by (intro region_zone) (auto simp: sentinels_set)
next
  case False
  then obtain y where y: "y \<in> set (F k)" "a = y + 32" using assms(3) by auto
  show ?thesis
    using zinv_F [OF assms(1,2) y(1)] y(2) by (intro region_block [of y]) auto
qed

subsection \<open>Writes inside a region\<close>

lemma same_outside_refl [simp]: "same_outside R s s"
  by (simp add: same_outside_def)

lemma same_outside_trans:
  "same_outside R s s1 \<Longrightarrow> same_outside R s1 s2 \<Longrightarrow> same_outside R s s2"
  by (auto simp: same_outside_def)

lemma same_outside_mono: "same_outside R s s' \<Longrightarrow> R \<subseteq> R' \<Longrightarrow> same_outside R' s s'"
  by (auto simp: same_outside_def)

lemma same_outside_frees:
  assumes "blocks s' = blocks s" "bytes s' = bytes s" "zone_used s' = zone_used s"
    "zone_size s' = zone_size s" "minfragment s' = minfragment s" "mainzone s' = mainzone s"
    "smallzone s' = smallzone s" "brk s' = brk s" "heap_end s' = heap_end s"
    and "\<And>a. a \<notin> R \<Longrightarrow> fnext_of s' a = fnext_of s a \<and> fprev_of s' a = fprev_of s a"
  shows "same_outside R s s'"
  using assms by (auto simp: same_outside_def fnext_of_def fprev_of_def freeblock.equality)

lemma same_outside_blocks:
  assumes "frees s' = frees s" "bytes s' = bytes s" "zone_used s' = zone_used s"
    "zone_size s' = zone_size s" "minfragment s' = minfragment s" "mainzone s' = mainzone s"
    "smallzone s' = smallzone s" "brk s' = brk s" "heap_end s' = heap_end s"
    and "\<And>a. a \<notin> R \<Longrightarrow> next_of s' a = next_of s a \<and> prev_of s' a = prev_of s a
            \<and> size_of s' a = size_of s a \<and> tag_of s' a = tag_of s a \<and> id_of s' a = id_of s a"
  shows "same_outside R s s'"
  using assms
  by (auto simp: same_outside_def next_of_def prev_of_def size_of_def tag_of_def id_of_def
        memblock.equality)

subsection \<open>Taking a block off its free list\<close>

lemma RemoveFree_zinv:
  assumes inv: "zinv s z bs F P" and k: "k \<in> set (sentinels z)" and x: "x \<in> set (F k)"
  shows "zinv (RemoveFree s x) z bs (F(k := remove1 x (F k))) (insert x P)"
    and "same_outside (region s z bs) s (RemoveFree s x)"
proof -
  let ?s' = "RemoveFree s x"
  let ?f = "\<lambda>b::int. b + 32"
  let ?K = "set (sentinels z)"
  let ?F' = "F(k := remove1 x (F k))"
  let ?FREE = "{b \<in> set bs. tag_of s b = TAG_FREE}"
  have fi: "free_inv s z bs F P" using inv by (simp add: zinv_def)
  note R = free_invD(1) [OF fi]
  note D = free_invD(2) [OF fi]
  have S: "\<And>k k' y. k \<in> ?K \<Longrightarrow> k' \<in> ?K \<Longrightarrow> y \<in> set (F k') \<Longrightarrow> ?f y \<noteq> k"
    using zinv_F(4) [OF inv] by (fastforce simp: sentinels_set)
  have I: "inj ?f" by (simp add: inj_def)
  note rr = rings_remove [where K = ?K and f = ?f and F = F and n = "fnext_of s"
      and p = "fprev_of s" and n' = "fnext_of ?s'" and p' = "fprev_of ?s'" and F' = ?F',
      OF R D I S k x]
  have rr': "(\<forall>k\<in>?K. ring (fnext_of ?s') (fprev_of ?s') (k # map ?f (?F' k)))
     \<and> (\<forall>k\<in>?K. \<forall>k'\<in>?K. k \<noteq> k' \<longrightarrow> set (?F' k) \<inter> set (?F' k') = {})
     \<and> (\<Union>k\<in>?K. set (?F' k)) = (\<Union>k\<in>?K. set (F k)) - {x}
     \<and> fprev_of s (x + 32) \<in> set (k # map ?f (F k))
     \<and> fnext_of s (x + 32) \<in> set (k # map ?f (F k))"
    by (rule rr) simp_all
  have xin: "x \<in> set bs" "tag_of s x = TAG_FREE" "x \<notin> P"
    using zinv_F [OF inv k x] by auto
  have u: "(\<Union>k\<in>?K. set (?F' k)) = ?FREE - insert x P"
  proof -
    have "(\<Union>k\<in>?K. set (?F' k)) = (\<Union>k\<in>?K. set (F k)) - {x}" using rr' by blast
    also have "\<dots> = (?FREE - P) - {x}" by (simp only: free_invD(3) [OF fi])
    also have "\<dots> = ?FREE - insert x P" by blast
    finally show ?thesis .
  qed
  have sub: "insert x P \<subseteq> ?FREE"
    using free_invD(4) [OF fi] xin by blast
  have "free_inv ?s' z bs ?F' (insert x P)"
    unfolding free_inv_def using rr' u sub by simp
  moreover have "blocks_inv ?s' z bs"
    using inv by (simp add: zinv_def blocks_inv_cong [of ?s' s])
  moreover have "pending_ok ?s' (insert x P) bs"
    using inv pending_ok_mono [of s P bs "insert x P"]
    by (auto simp: zinv_def pending_ok_cong [of ?s' s])
  moreover have "acct_inv ?s' z bs"
    using inv by (simp add: zinv_def acct_inv_cong [of ?s' s])
  ultimately show "zinv ?s' z bs ?F' (insert x P)"
    by (simp add: zinv_def)
  have pv: "fprev_of s (x + 32) \<in> set (k # map ?f (F k))"
    and nx: "fnext_of s (x + 32) \<in> set (k # map ?f (F k))"
    using rr' by blast+
  show "same_outside (region s z bs) s ?s'"
  proof (rule same_outside_frees)
    fix a assume "a \<notin> region s z bs"
    then have "a \<noteq> fprev_of s (x + 32)" "a \<noteq> fnext_of s (x + 32)"
      using ring_elems_region [OF inv k pv] ring_elems_region [OF inv k nx] by auto
    then show "fnext_of ?s' a = fnext_of s a \<and> fprev_of ?s' a = fprev_of s a"
      by simp
  qed simp_all
qed


subsection \<open>Putting a block on a free list\<close>

lemma InsertFree_zinv:
  assumes inv: "zinv s z bs F P" and x: "x \<in> P" and po: "pending_ok s (P - {x}) bs"
  shows "zinv (InsertFree s z x) z bs
           (F(class_head s z x := x # F (class_head s z x))) (P - {x})"
    and "same_outside (region s z bs) s (InsertFree s z x)"
proof -
  let ?s' = "InsertFree s z x"
  let ?f = "\<lambda>b::int. b + 32"
  let ?K = "set (sentinels z)"
  let ?k = "class_head s z x"
  let ?F' = "F(?k := x # F ?k)"
  let ?FREE = "{b \<in> set bs. tag_of s b = TAG_FREE}"
  have fi: "free_inv s z bs F P" using inv by (simp add: zinv_def)
  note R = free_invD(1) [OF fi]
  note D = free_invD(2) [OF fi]
  have S: "\<And>k k' y. k \<in> ?K \<Longrightarrow> k' \<in> ?K \<Longrightarrow> y \<in> set (F k') \<Longrightarrow> ?f y \<noteq> k"
    using zinv_F(4) [OF inv] by (fastforce simp: sentinels_set)
  have I: "inj ?f" by (simp add: inj_def)
  have k: "?k \<in> ?K" by simp
  have xn: "\<And>k. k \<in> ?K \<Longrightarrow> x \<notin> set (F k)" by (rule zinv_P(8) [OF inv x])
  have xf: "x \<in> set bs" "tag_of s x = TAG_FREE" "z + 232 \<le> x" "48 \<le> size_of s x"
    "ext s x = size_of s x"
    using zinv_P [OF inv x] by auto
  have fx: "?f x \<notin> ?K" using xf(3) by (auto simp: sentinels_set)
  note ri = rings_insert [where K = ?K and f = ?f and F = F and n = "fnext_of s"
      and p = "fprev_of s" and n' = "fnext_of ?s'" and p' = "fprev_of ?s'" and F' = ?F'
      and ?k0.0 = ?k and x = x, OF R D I S k xn fx]
  have ri': "(\<forall>k\<in>?K. ring (fnext_of ?s') (fprev_of ?s') (k # map ?f (?F' k)))
     \<and> (\<forall>k\<in>?K. \<forall>k'\<in>?K. k \<noteq> k' \<longrightarrow> set (?F' k) \<inter> set (?F' k') = {})
     \<and> (\<Union>k\<in>?K. set (?F' k)) = insert x (\<Union>k\<in>?K. set (F k))"
    by (rule ri) (simp_all add: InsertFree_fabs)
  have u: "(\<Union>k\<in>?K. set (?F' k)) = ?FREE - (P - {x})"
  proof -
    have "(\<Union>k\<in>?K. set (?F' k)) = insert x (\<Union>k\<in>?K. set (F k))" using ri' by blast
    also have "\<dots> = insert x (?FREE - P)" by (simp only: free_invD(3) [OF fi])
    also have "\<dots> = ?FREE - (P - {x})" using xf(1,2) x by blast
    finally show ?thesis .
  qed
  have sub: "P - {x} \<subseteq> ?FREE"
    using free_invD(4) [OF fi] by blast
  have "free_inv ?s' z bs ?F' (P - {x})"
    unfolding free_inv_def using ri' u sub by simp
  moreover have "blocks_inv ?s' z bs"
    using inv by (simp add: zinv_def blocks_inv_cong [of ?s' s])
  moreover have "pending_ok ?s' (P - {x}) bs"
    using po by (simp add: pending_ok_cong [of ?s' s])
  moreover have "acct_inv ?s' z bs"
    using inv by (simp add: zinv_def acct_inv_cong [of ?s' s])
  ultimately show "zinv ?s' z bs ?F' (P - {x})"
    by (simp add: zinv_def)
  have r0: "ring (fnext_of s) (fprev_of s) ([] @ ?k # map ?f (F ?k))"
    using R [OF k] by simp
  have "fnext_of s ?k = hd (map ?f (F ?k) @ [?k])"
    using ring_next [OF r0] by simp
  then have nx: "fnext_of s ?k \<in> set (?k # map ?f (F ?k))"
    using hd_app_Cons_mem [of "map ?f (F ?k)" ?k "[]"] by simp
  have kin: "?k \<in> set (?k # map ?f (F ?k))" by simp
  have xr: "x + 32 \<in> region s z bs"
    using xf by (intro region_block [of x]) auto
  show "same_outside (region s z bs) s ?s'"
  proof (rule same_outside_frees)
    fix a assume "a \<notin> region s z bs"
    then have "a \<noteq> ?k" "a \<noteq> fnext_of s ?k" "a \<noteq> x + 32"
      using ring_elems_region [OF inv k kin] ring_elems_region [OF inv k nx] xr by auto
    then show "fnext_of ?s' a = fnext_of s a \<and> fprev_of ?s' a = fprev_of s a"
      by (simp add: InsertFree_fabs)
  qed simp_all
qed


subsection \<open>Merging a free block with its successor\<close>

lemma zone_blocks_distinct:
  "zone_blocks s z bs \<Longrightarrow> distinct (blocklist z # bs)"
  by (simp add: zone_blocks_def ring_def)

lemma ZONEID_simps [simp]: "0 < ZONEID" "ZONEID \<noteq> - ZONEID" "- ZONEID \<noteq> ZONEID" "ZONEID \<noteq> 0"
  by (simp_all add: ZONEID_def)

lemma ext_pos:
  assumes "blocks_inv s z bs" and "b \<in> set bs"
  shows "0 < ext s b"
  using blocks_invD(6) [OF assms] by (auto simp: ext_def)

lemma sorted_wrt_ext_cong:
  "(\<And>x. x \<in> set xs \<Longrightarrow> e' x = e x) \<Longrightarrow>
     sorted_wrt (\<lambda>x y. x + e' x \<le> (y::int)) xs = sorted_wrt (\<lambda>x y. x + e x \<le> y) xs"
  by (induction xs) auto

lemma contig_cong:
  "(\<And>x. x \<in> set xs \<Longrightarrow> i' x = i x \<and> sz' x = sz x) \<Longrightarrow>
     successively (\<lambda>x y. i' x = ZONEID \<and> i' y = ZONEID \<longrightarrow> x + sz' x = (y::int)) xs
     = successively (\<lambda>x y. i x = ZONEID \<and> i y = ZONEID \<longrightarrow> x + sz x = y) xs"
  by (rule successively_cong) auto

lemma MergeBlock_blocks_inv:
  assumes bi: "blocks_inv s z (pre @ c # n # post)"
    and tc: "tag_of s c = TAG_FREE" and tn: "tag_of s n = TAG_FREE"
  shows "blocks_inv (MergeBlock s c n) z (pre @ c # post)"
    and "region (MergeBlock s c n) z (pre @ c # post) = region s z (pre @ c # n # post)"
    and "next_of s n \<in> set (blocklist z # pre @ c # post)"
    and "c + size_of s c = n"
proof -
  let ?s' = "MergeBlock s c n"
  let ?bs = "pre @ c # n # post"
  let ?bs' = "pre @ c # post"
  let ?h = "blocklist z"
  have cin: "c \<in> set ?bs" and nin: "n \<in> set ?bs" by auto
  note fc = free_block_facts [OF bi cin tc]
  note fn = free_block_facts [OF bi nin tn]
  have d: "distinct (?h # ?bs)"
    using blocks_invD(3) [OF bi] by (rule zone_blocks_distinct)
  have contig: "successively
      (\<lambda>x y. id_of s x = ZONEID \<and> id_of s y = ZONEID \<longrightarrow> x + size_of s x = y) ?bs"
    by (rule blocks_invD(8) [OF bi])
  then have cn: "c + size_of s c = n"
    using fc(2) fn(2) by (auto simp: successively_append_iff successively_Cons)
  show "c + size_of s c = n" by (rule cn)
  have e': "ext ?s' b = (if b = c then size_of s c + size_of s n else ext s b)" for b
    using fc(2) by (simp add: ext_def)
  have r0: "ring (next_of s) (prev_of s) ((?h # pre @ [c]) @ n # post)"
    using blocks_invD(3) [OF bi] by (simp add: zone_blocks_def)
  have nx: "next_of s n = hd (post @ ?h # pre @ [c])"
    using ring_next [OF r0] by (cases post) auto
  then show nxin: "next_of s n \<in> set (?h # ?bs')"
    using hd_app_Cons_mem [of post ?h "pre @ [c]"] by auto
  have ring': "ring (next_of ?s') (prev_of ?s') ((?h # pre @ [c]) @ post)"
  proof (rule ring_remove [OF r0])
    show "(?h # pre @ [c]) @ post \<noteq> []" by simp
    show "c = last (post @ ?h # pre @ [c])" by simp
    show "next_of s n = hd (post @ ?h # pre @ [c])" by (rule nx)
  qed simp_all
  have blk: "z + 232 \<le> b \<and> b + ext ?s' b \<le> brk ?s'
        \<and> (id_of ?s' b = ZONEID \<and> 48 \<le> size_of ?s' b
            \<or> id_of ?s' b = - ZONEID \<and> tag_of ?s' b = TAG_GENERAL \<and> size_of ?s' b = 0)"
    if "b \<in> set ?bs'" for b
  proof -
    have "b \<in> set ?bs" using that by auto
    from blocks_invD(6) [OF bi this] show ?thesis
      using fc fn cn by (auto simp: e')
  qed
  have sorted: "sorted_wrt (\<lambda>x y. x + ext ?s' x \<le> y) ?bs'"
  proof -
    have s0: "sorted_wrt (\<lambda>x y. x + ext s x \<le> y) pre"
      "sorted_wrt (\<lambda>x y. x + ext s x \<le> y) post"
      "\<forall>x\<in>set pre. x + ext s x \<le> c \<and> (\<forall>y\<in>set post. x + ext s x \<le> y)"
      "\<forall>y\<in>set post. n + ext s n \<le> y"
      using blocks_invD(7) [OF bi] by (auto simp: sorted_wrt_append)
    have "sorted_wrt (\<lambda>x y. x + ext ?s' x \<le> y) pre"
      using s0(1) d by (subst sorted_wrt_ext_cong [where e = "ext s"]) (auto simp: e')
    moreover have "sorted_wrt (\<lambda>x y. x + ext ?s' x \<le> y) post"
      using s0(2) d by (subst sorted_wrt_ext_cong [where e = "ext s"]) (auto simp: e')
    moreover have "\<forall>x\<in>set pre. x + ext ?s' x \<le> c \<and> (\<forall>y\<in>set post. x + ext ?s' x \<le> y)"
      using s0(3) d by (auto simp: e')
    moreover have "\<forall>y\<in>set post. c + ext ?s' c \<le> y"
      using s0(4) cn fn(5) by (auto simp: e')
    ultimately show ?thesis by (auto simp: sorted_wrt_append)
  qed
  have contig': "successively
      (\<lambda>x y. id_of ?s' x = ZONEID \<and> id_of ?s' y = ZONEID \<longrightarrow> x + size_of ?s' x = y) ?bs'"
  proof -
    have a: "successively
      (\<lambda>x y. id_of s x = ZONEID \<and> id_of s y = ZONEID \<longrightarrow> x + size_of s x = y) (pre @ [c])"
      and b: "successively
      (\<lambda>x y. id_of s x = ZONEID \<and> id_of s y = ZONEID \<longrightarrow> x + size_of s x = y) (n # post)"
      using contig by (auto simp: successively_append_iff successively_Cons)
    have a': "successively
      (\<lambda>x y. id_of ?s' x = ZONEID \<and> id_of ?s' y = ZONEID \<longrightarrow> x + size_of ?s' x = y) (pre @ [c])"
    proof -
      have "successively
        (\<lambda>x y. id_of ?s' x = ZONEID \<and> id_of ?s' y = ZONEID \<longrightarrow> x + size_of ?s' x = y) pre"
        using a d by (subst contig_cong [where i = "id_of s" and sz = "size_of s"])
          (auto simp: successively_append_iff)
      moreover have "pre \<noteq> [] \<longrightarrow> (id_of s (last pre) = ZONEID \<and> id_of s c = ZONEID \<longrightarrow>
          last pre + size_of s (last pre) = c) \<and> last pre \<noteq> c"
        using a d by (auto simp: successively_append_iff)
      ultimately show ?thesis
        by (auto simp: successively_append_iff)
    qed
    have b': "successively
      (\<lambda>x y. id_of ?s' x = ZONEID \<and> id_of ?s' y = ZONEID \<longrightarrow> x + size_of ?s' x = y) (c # post)"
    proof -
      have "successively
        (\<lambda>x y. id_of ?s' x = ZONEID \<and> id_of ?s' y = ZONEID \<longrightarrow> x + size_of ?s' x = y) post"
        using b d by (subst contig_cong [where i = "id_of s" and sz = "size_of s"])
          (auto simp: successively_Cons)
      moreover have "post \<noteq> [] \<longrightarrow> (id_of s (hd post) = ZONEID \<longrightarrow>
          n + size_of s n = hd post)"
        using b fn(2) by (auto simp: successively_Cons)
      ultimately show ?thesis
        using cn by (auto simp: successively_Cons)
    qed
    show ?thesis
      using a' b' by (auto simp: successively_append_iff successively_Cons)
  qed
  show "blocks_inv ?s' z ?bs'"
    unfolding blocks_inv_def zone_blocks_def
    using blocks_invD(1,2,4,5) [OF bi] ring' blk sorted contig' by simp
  have "{c ..< c + (size_of s c + size_of s n)} = {c ..< c + size_of s c} \<union> {n ..< n + size_of s n}"
    using cn fc(3) fn(3) by auto
  then show "region ?s' z ?bs' = region s z ?bs"
    using d fc(5) fn(5) by (auto simp: region_def e' split: if_splits)
qed


lemma head_in_region: "blocklist z \<in> region s z bs"
  by (simp add: region_def blocklist_def)

lemma block_in_region:
  assumes "blocks_inv s z bs" and "b \<in> set bs"
  shows "b \<in> region s z bs"
  using ext_pos [OF assms] assms(2) by (intro region_block [of b]) auto

lemma used_sum_drop_free:
  assumes "tag_of s c = TAG_FREE" and "tag_of s n = TAG_FREE"
    and "tag_of s' = tag_of s" and "\<And>b. b \<noteq> c \<Longrightarrow> ext s' b = ext s b"
  shows "used_sum s' (pre @ c # post) = used_sum s (pre @ c # n # post)"
proof -
  have "map (ext s') (filter (\<lambda>b. tag_of s b \<noteq> TAG_FREE) xs)
      = map (ext s) (filter (\<lambda>b. tag_of s b \<noteq> TAG_FREE) xs)" for xs
  proof (intro map_cong refl)
    fix x assume "x \<in> set (filter (\<lambda>b. tag_of s b \<noteq> TAG_FREE) xs)"
    then have "x \<noteq> c" using assms(1) by auto
    then show "ext s' x = ext s x" by (rule assms(4))
  qed
  note m = this
  show ?thesis using assms(1,2,3) by (simp add: used_sum_def m)
qed

lemma MergeBlock_zinv:
  assumes inv: "zinv s z (pre @ c # n # post) F P" and c: "c \<in> P" and n: "n \<in> P"
  shows "zinv (MergeBlock s c n) z (pre @ c # post) F (P - {n})"
    and "same_outside (region s z (pre @ c # n # post)) s (MergeBlock s c n)"
    and "region (MergeBlock s c n) z (pre @ c # post) = region s z (pre @ c # n # post)"
    and "c + size_of s c = n"
proof -
  let ?s' = "MergeBlock s c n"
  let ?bs = "pre @ c # n # post"
  let ?bs' = "pre @ c # post"
  let ?h = "blocklist z"
  let ?Q = "\<lambda>P x y. tag_of s x = TAG_FREE \<and> tag_of s y = TAG_FREE \<longrightarrow> x \<in> P \<or> y \<in> P"
  note bi = zinvD(1) [OF inv]
  note fi = zinvD(3) [OF inv]
  note ai = zinvD(4) [OF inv]
  note fc = zinv_P [OF inv c]
  note fn = zinv_P [OF inv n]
  note mb = MergeBlock_blocks_inv [OF bi fc(2) fn(2)]
  show "region ?s' z ?bs' = region s z ?bs" by (rule mb(2))
  show "c + size_of s c = n" by (rule mb(4))
  have d: "distinct (?h # ?bs)"
    using blocks_invD(3) [OF bi] by (rule zone_blocks_distinct)
  have e': "ext ?s' b = ext s b" if "b \<noteq> c" for b
    using that by (simp add: ext_def)
  have po: "successively (?Q P) ?bs" using zinvD(2) [OF inv] by (simp add: pending_ok_def)
  have po': "pending_ok ?s' (P - {n}) ?bs'"
  proof -
    have "successively (?Q (P - {n})) pre"
      using po d by (auto simp: successively_append_iff elim!: successively_mono)
    moreover have "successively (?Q (P - {n})) post"
      using po d by (auto simp: successively_append_iff successively_Cons elim!: successively_mono)
    moreover have "c \<in> P - {n}" using c d by auto
    ultimately show ?thesis
      by (auto simp: pending_ok_def successively_append_iff successively_Cons)
  qed
  have free: "{b \<in> set ?bs'. tag_of s b = TAG_FREE} = {b \<in> set ?bs. tag_of s b = TAG_FREE} - {n}"
    using d by auto
  have fi': "free_inv ?s' z ?bs' F (P - {n})"
    unfolding free_inv_def
    using free_invD(1,2) [OF fi] free_invD(3,4) [OF fi] n free by simp blast
  have ai': "acct_inv ?s' z ?bs'"
  proof -
    have "used_sum ?s' ?bs' = used_sum s ?bs"
      by (rule used_sum_drop_free [OF fc(2) fn(2)]) (simp_all add: e')
    moreover have "size_of ?s' b = size_of s b" if "tag_of s b \<noteq> TAG_FREE" for b
      using that fc(2) by auto
    ultimately show ?thesis
      using ai by (auto simp: acct_inv_def)
  qed
  show "zinv ?s' z ?bs' F (P - {n})"
    using mb(1) po' fi' ai' by (simp add: zinv_def)
  have cr: "c \<in> region s z ?bs" by (rule block_in_region [OF bi]) simp
  have nr: "next_of s n \<in> region s z ?bs"
  proof (cases "next_of s n = ?h")
    case True
    then show ?thesis by (simp add: head_in_region)
  next
    case False
    then have "next_of s n \<in> set ?bs" using mb(3) by auto
    then show ?thesis by (rule block_in_region [OF bi])
  qed
  show "same_outside (region s z ?bs) s ?s'"
  proof (rule same_outside_blocks)
    fix a assume "a \<notin> region s z ?bs"
    then have "a \<noteq> c" "a \<noteq> next_of s n" using cr nr by auto
    then show "next_of ?s' a = next_of s a \<and> prev_of ?s' a = prev_of s a
        \<and> size_of ?s' a = size_of s a \<and> tag_of ?s' a = tag_of s a \<and> id_of ?s' a = id_of s a"
      by simp
  qed simp_all
qed


subsection \<open>The steps of the two functions\<close>

lemma Z_Free_unfold:
  assumes "ptr \<noteq> 0" and "id_of s (ptr - 32) = ZONEID" and "tag_of s (ptr - 32) \<noteq> TAG_FREE"
    and "tag_of s (ptr - 32) \<noteq> TAG_STATIC"
    and "read_int s (ptr - 32 + size_of s (ptr - 32) - 4) = ZONEID"
  shows "Z_Free s ptr =
    (let block = ptr - 32;
         zone = (if tag_of s block = TAG_SMALL then smallzone s else mainzone s);
         s = Z_Free_mark s zone block;
         other = prev_of s block;
         (s, block) = (if tag_of s other = TAG_FREE
                       then (MergeBlock (RemoveFree s other) other block, other)
                       else (s, block));
         other = next_of s block;
         s = (if tag_of s other = TAG_FREE
              then MergeBlock (RemoveFree s other) block other
              else s)
     in Inr (InsertFree s zone block))"
  using assms
  by (simp add: Z_Free_def Z_Free_mark_def Let_def next_of_def prev_of_def tag_of_def id_of_def
        size_of_def)

lemma Z_TagMalloc_unfold:
  assumes "tag \<noteq> TAG_FREE"
  shows "Z_TagMalloc s size' tag =
    (let zone = (if tag = TAG_SMALL then smallzone s else mainzone s);
         sz = to_int (PAD (to_int (to_int ((if to_size_t size' < 16 then 16 else size') + 32) + 4)) 8)
     in case SearchFree s zone sz of
          None \<Rightarrow> None
        | Some (Inl e) \<Rightarrow> Some (Inl e)
        | Some (Inr (s, base)) \<Rightarrow>
           (let s = RemoveFree s base;
                s = (if size_of s base - sz \<ge> minfragment s
                     then InsertFree (Z_TagMalloc_split s base sz) zone (base + sz)
                     else s)
            in Some (Inr (Z_TagMalloc_claim s zone base tag, base + 32))))"
  using assms
  by (simp add: Z_TagMalloc_def Z_TagMalloc_split_def Z_TagMalloc_claim_def Let_def
        size_of_def add.assoc
        cong: option.case_cong sum.case_cong prod.case_cong if_cong)

lemma NewBlock_unfold:
  "NewBlock s zone size' =
     (let prev = prev_of s (blocklist zone);
          next = next_of s prev;
          sz = to_int (PAD size' (2 ^ 21));
          (s1, sep) = calloc s (to_size_t (to_int (sz + 32)))
      in if sep = 0 then
           Com_Error s1 ERR_FATAL ''Z_Malloc: failed on allocation of %i bytes from the %s zone''
         else Inr (InsertFree (NewBlock_link s1 zone prev next sep sz) zone (sep + 32),
                   sep + 32 + 32))"
  by (simp add: NewBlock_def NewBlock_link_def Let_def next_of_def prev_of_def
        split: prod.splits)


lemma Z_Free_mark_frame [simp]:
  "frees (Z_Free_mark s z b) = frees s"
  "zone_size (Z_Free_mark s z b) = zone_size s"
  "minfragment (Z_Free_mark s z b) = minfragment s"
  "mainzone (Z_Free_mark s z b) = mainzone s"
  "smallzone (Z_Free_mark s z b) = smallzone s"
  "hunk_low (Z_Free_mark s z b) = hunk_low s"
  "hunk_high (Z_Free_mark s z b) = hunk_high s"
  "hunk_permanent (Z_Free_mark s z b) = hunk_permanent s"
  "hunk_temp (Z_Free_mark s z b) = hunk_temp s"
  "s_hunkData (Z_Free_mark s z b) = s_hunkData s"
  "s_hunkTotal (Z_Free_mark s z b) = s_hunkTotal s"
  "s_buf (Z_Free_mark s z b) = s_buf s"
  "brk (Z_Free_mark s z b) = brk s"
  "heap_end (Z_Free_mark s z b) = heap_end s"
  by (simp_all add: Z_Free_mark_def Let_def )

lemma Z_TagMalloc_claim_frame [simp]:
  "frees (Z_TagMalloc_claim s z b t) = frees s"
  "zone_size (Z_TagMalloc_claim s z b t) = zone_size s"
  "minfragment (Z_TagMalloc_claim s z b t) = minfragment s"
  "mainzone (Z_TagMalloc_claim s z b t) = mainzone s"
  "smallzone (Z_TagMalloc_claim s z b t) = smallzone s"
  "hunk_low (Z_TagMalloc_claim s z b t) = hunk_low s"
  "hunk_high (Z_TagMalloc_claim s z b t) = hunk_high s"
  "hunk_permanent (Z_TagMalloc_claim s z b t) = hunk_permanent s"
  "hunk_temp (Z_TagMalloc_claim s z b t) = hunk_temp s"
  "s_hunkData (Z_TagMalloc_claim s z b t) = s_hunkData s"
  "s_hunkTotal (Z_TagMalloc_claim s z b t) = s_hunkTotal s"
  "s_buf (Z_TagMalloc_claim s z b t) = s_buf s"
  "brk (Z_TagMalloc_claim s z b t) = brk s"
  "heap_end (Z_TagMalloc_claim s z b t) = heap_end s"
  by (simp_all add: Z_TagMalloc_claim_def Let_def )

lemma Z_TagMalloc_split_frame [simp]:
  "frees (Z_TagMalloc_split s b n) = frees s"
  "bytes (Z_TagMalloc_split s b n) = bytes s"
  "zone_size (Z_TagMalloc_split s b n) = zone_size s"
  "zone_used (Z_TagMalloc_split s b n) = zone_used s"
  "minfragment (Z_TagMalloc_split s b n) = minfragment s"
  "mainzone (Z_TagMalloc_split s b n) = mainzone s"
  "smallzone (Z_TagMalloc_split s b n) = smallzone s"
  "hunk_low (Z_TagMalloc_split s b n) = hunk_low s"
  "hunk_high (Z_TagMalloc_split s b n) = hunk_high s"
  "hunk_permanent (Z_TagMalloc_split s b n) = hunk_permanent s"
  "hunk_temp (Z_TagMalloc_split s b n) = hunk_temp s"
  "s_hunkData (Z_TagMalloc_split s b n) = s_hunkData s"
  "s_hunkTotal (Z_TagMalloc_split s b n) = s_hunkTotal s"
  "s_buf (Z_TagMalloc_split s b n) = s_buf s"
  "brk (Z_TagMalloc_split s b n) = brk s"
  "heap_end (Z_TagMalloc_split s b n) = heap_end s"
  by (simp_all add: Z_TagMalloc_split_def Let_def )

lemma NewBlock_link_frame [simp]:
  "frees (NewBlock_link s z p n sep sz) = frees s"
  "bytes (NewBlock_link s z p n sep sz) = bytes s"
  "minfragment (NewBlock_link s z p n sep sz) = minfragment s"
  "mainzone (NewBlock_link s z p n sep sz) = mainzone s"
  "smallzone (NewBlock_link s z p n sep sz) = smallzone s"
  "hunk_low (NewBlock_link s z p n sep sz) = hunk_low s"
  "hunk_high (NewBlock_link s z p n sep sz) = hunk_high s"
  "hunk_permanent (NewBlock_link s z p n sep sz) = hunk_permanent s"
  "hunk_temp (NewBlock_link s z p n sep sz) = hunk_temp s"
  "s_hunkData (NewBlock_link s z p n sep sz) = s_hunkData s"
  "s_hunkTotal (NewBlock_link s z p n sep sz) = s_hunkTotal s"
  "s_buf (NewBlock_link s z p n sep sz) = s_buf s"
  "brk (NewBlock_link s z p n sep sz) = brk s"
  "heap_end (NewBlock_link s z p n sep sz) = heap_end s"
  by (simp_all add: NewBlock_link_def Let_def )


lemma Z_Free_mark_abs [simp]:
  "next_of (Z_Free_mark s z b) = next_of s"
  "prev_of (Z_Free_mark s z b) = prev_of s"
  "size_of (Z_Free_mark s z b) = size_of s"
  "fnext_of (Z_Free_mark s z b) = fnext_of s"
  "fprev_of (Z_Free_mark s z b) = fprev_of s"
  "tag_of (Z_Free_mark s z b) = (tag_of s)(b := TAG_FREE)"
  "id_of (Z_Free_mark s z b) = (id_of s)(b := ZONEID)"
  "zone_used (Z_Free_mark s z b) = (zone_used s)(z := zone_used s z - size_of s b)"
  "bytes (Z_Free_mark s z b) =
     (\<lambda>a. if b + 32 \<le> a \<and> a < b + size_of s b then 0xaa else bytes s a)"
  using fnext_of_def [of "Z_Free_mark s z b"] fprev_of_def [of "Z_Free_mark s z b"]
  by (simp_all add: fnext_of_def fprev_of_def)
     (auto simp: Z_Free_mark_def Let_def folds fun_eq_iff)

lemma Z_TagMalloc_claim_abs [simp]:
  "next_of (Z_TagMalloc_claim s z b t) = next_of s"
  "prev_of (Z_TagMalloc_claim s z b t) = prev_of s"
  "size_of (Z_TagMalloc_claim s z b t) = size_of s"
  "fnext_of (Z_TagMalloc_claim s z b t) = fnext_of s"
  "fprev_of (Z_TagMalloc_claim s z b t) = fprev_of s"
  "tag_of (Z_TagMalloc_claim s z b t) = (tag_of s)(b := t)"
  "id_of (Z_TagMalloc_claim s z b t) = (id_of s)(b := ZONEID)"
  "zone_used (Z_TagMalloc_claim s z b t) = (zone_used s)(z := zone_used s z + size_of s b)"
  "bytes (Z_TagMalloc_claim s z b t) = bytes (write_int s (b + size_of s b - 4) ZONEID)"
  by (simp_all add: fnext_of_def fprev_of_def)
     (auto simp: Z_TagMalloc_claim_def Let_def folds fun_eq_iff)

lemma Z_TagMalloc_split_abs [simp]:
  "fnext_of (Z_TagMalloc_split s b n) = fnext_of s"
  "fprev_of (Z_TagMalloc_split s b n) = fprev_of s"
  "read_int (Z_TagMalloc_split s b n) = read_int s"
  "tag_of (Z_TagMalloc_split s b n) = (tag_of s)(b + n := TAG_FREE)"
  "id_of (Z_TagMalloc_split s b n) = (id_of s)(b + n := ZONEID)"
  "size_of (Z_TagMalloc_split s b n) = (size_of s)(b + n := size_of s b - n, b := n)"
  using read_int_cong [of "Z_TagMalloc_split s b n" s]
  by (simp_all add: fnext_of_def fprev_of_def)
     (auto simp: Z_TagMalloc_split_def Let_def folds fun_eq_iff)

lemma Z_TagMalloc_split_links:
  assumes "n \<noteq> 0"
  shows "next_of (Z_TagMalloc_split s b n) = (next_of s)(b + n := next_of s b, b := b + n)"
    and "prev_of (Z_TagMalloc_split s b n) = (prev_of s)(b + n := b, next_of s b := b + n)"
  using assms by (auto simp: Z_TagMalloc_split_def Let_def folds fun_eq_iff)

lemma read_int_Com_Memset:
  "p + 3 < d \<or> d + n \<le> p \<Longrightarrow> read_int (Com_Memset s d c n) p = read_int s p"
  by (auto simp: read_int_def)

lemma read_int_bytes_cong:
  "(\<And>a. p \<le> a \<Longrightarrow> a \<le> p + 3 \<Longrightarrow> bytes s' a = bytes s a) \<Longrightarrow> read_int s' p = read_int s p"
  by (simp add: read_int_def)

lemma read_int_write_ZONEID: "read_int (write_int s p ZONEID) p = ZONEID"
  by (simp add: read_int_def ZONEID_def to_int_def)


subsection \<open>Marking a block free\<close>

lemma sorted_disjoint:
  assumes "sorted_wrt (\<lambda>x y. x + e x \<le> (y::int)) bs" and "x \<in> set bs" and "y \<in> set bs"
    and "x \<noteq> y"
  shows "x + e x \<le> y \<or> y + e y \<le> x"
  using assms by (induction bs) auto

lemma used_sum_mark:
  assumes "distinct bs" and "b \<in> set bs" and "tag_of s b \<noteq> TAG_FREE"
    and "tag_of s' = (tag_of s)(b := TAG_FREE)" and "ext s' = ext s"
  shows "used_sum s' bs = used_sum s bs - ext s b"
  using assms(1,2)
proof (induction bs)
  case Nil
  then show ?case by simp
next
  case (Cons a bs)
  have eq: "used_sum s' bs = used_sum s bs" if "b \<notin> set bs"
  proof -
    have "filter (\<lambda>x. tag_of s' x \<noteq> TAG_FREE) bs = filter (\<lambda>x. tag_of s x \<noteq> TAG_FREE) bs"
      using that by (intro filter_cong refl) (auto simp: assms(4))
    then show ?thesis by (simp add: used_sum_def assms(5))
  qed
  show ?case
  proof (cases "a = b")
    case True
    then have "b \<notin> set bs" using Cons.prems by simp
    then show ?thesis using True assms(3) eq by (simp add: used_sum_def assms(4,5))
  next
    case False
    then have "used_sum s' bs = used_sum s bs - ext s b" using Cons by simp
    then show ?thesis using False by (simp add: used_sum_def assms(4,5))
  qed
qed

lemma Z_Free_mark_zinv:
  assumes inv: "zinv s z bs F P" and b: "b \<in> set bs" and ib: "id_of s b = ZONEID"
    and tb: "tag_of s b \<noteq> TAG_FREE"
  shows "zinv (Z_Free_mark s z b) z bs F (insert b P)"
    and "same_outside (region s z bs) s (Z_Free_mark s z b)"
    and "region (Z_Free_mark s z b) z bs = region s z bs"
proof -
  let ?s' = "Z_Free_mark s z b"
  let ?h = "blocklist z"
  note bi = zinvD(1) [OF inv]
  note fi = zinvD(3) [OF inv]
  note ai = zinvD(4) [OF inv]
  have d: "distinct (?h # bs)" using blocks_invD(3) [OF bi] by (rule zone_blocks_distinct)
  have idq: "(id_of s)(b := ZONEID) = id_of s" using ib by (simp add: fun_upd_idem)
  have e: "ext ?s' = ext s" by (rule ext_cong) (simp_all add: idq)
  show reg: "region ?s' z bs = region s z bs" by (rule region_cong) (simp_all add: idq)
  have bh: "b \<noteq> ?h" using d b by auto
  have bi': "blocks_inv ?s' z bs"
    using bi bh ib unfolding blocks_inv_def by (auto simp: e idq zone_blocks_def)
  have po': "pending_ok ?s' (insert b P) bs"
    using zinvD(2) [OF inv] unfolding pending_ok_def
    by (rule successively_mono) auto
  have fi': "free_inv ?s' z bs F (insert b P)"
  proof -
    have "{x \<in> set bs. tag_of ?s' x = TAG_FREE} = insert b {x \<in> set bs. tag_of s x = TAG_FREE}"
      using b by auto
    then show ?thesis
      using free_invD(1,2) [OF fi] free_invD(3,4) [OF fi] tb unfolding free_inv_def
      by simp blast
  qed
  have sb: "ext s b = size_of s b" using ib by (simp add: ext_def)
  have ai': "acct_inv ?s' z bs"
  proof -
    have u: "used_sum ?s' bs = used_sum s bs - ext s b"
      using d b tb by (intro used_sum_mark) (simp_all add: e)
    have r: "read_int ?s' (x + size_of s x - 4) = read_int s (x + size_of s x - 4)"
      if x: "x \<in> set bs" "id_of s x = ZONEID" "x \<noteq> b" for x
    proof -
      have "x + ext s x \<le> b \<or> b + ext s b \<le> x"
        using sorted_disjoint [OF blocks_invD(7) [OF bi] x(1) b x(3)] .
      moreover have "48 \<le> size_of s x" "ext s x = size_of s x"
        using blocks_invD(6) [OF bi x(1)] x(2) by (auto simp: ext_def)
      ultimately show ?thesis
        using sb by (intro read_int_bytes_cong) auto
    qed
    show ?thesis
      using ai u r unfolding acct_inv_def by (auto simp: idq sb)
  qed
  show "zinv ?s' z bs F (insert b P)"
    using bi' po' fi' ai' by (simp add: zinv_def)
  have zr: "z \<in> region s z bs" by (rule region_zone) simp
  have br: "\<And>a. b \<le> a \<Longrightarrow> a < b + size_of s b \<Longrightarrow> a \<in> region s z bs"
    using b sb by (intro region_block [of b]) auto
  have s48: "48 \<le> size_of s b" using blocks_invD(6) [OF bi b] ib by auto
  show "same_outside (region s z bs) s ?s'"
    unfolding same_outside_def
  proof (intro conjI allI impI)
    fix a assume a: "a \<notin> region s z bs"
    then have "a \<noteq> b" using br [of b] s48 by auto
    then show "blocks ?s' a = blocks s a"
      by (simp add: Z_Free_mark_def Let_def)
    show "bytes ?s' a = bytes s a" using a br [of a] by auto
    show "zone_used ?s' a = zone_used s a" using a zr by auto
  qed simp_all
qed


subsection \<open>Coalescing\<close>

lemma pending_ok_close:
  assumes po: "pending_ok s {x} (pre @ x # post)" and d: "distinct (pre @ x # post)"
    and l: "pre \<noteq> [] \<Longrightarrow> tag_of s (last pre) \<noteq> TAG_FREE"
    and h: "post \<noteq> [] \<Longrightarrow> tag_of s (hd post) \<noteq> TAG_FREE"
  shows "pending_ok s {} (pre @ x # post)"
proof -
  let ?Q = "\<lambda>P x y. tag_of s x = TAG_FREE \<and> tag_of s y = TAG_FREE \<longrightarrow> x \<in> P \<or> y \<in> P"
  have s: "successively (?Q {x}) (pre @ x # post)" using po by (simp add: pending_ok_def)
  have "successively (?Q {x}) pre" using s by (simp add: successively_append_iff)
  then have 1: "successively (?Q {}) pre"
    by (rule successively_mono) (use d in auto)
  have "successively (?Q {x}) post"
    using s by (auto simp: successively_append_iff successively_Cons)
  then have 2: "successively (?Q {}) post"
    by (rule successively_mono) (use d in auto)
  show ?thesis
    unfolding pending_ok_def using 1 2 l h
    by (auto simp: successively_append_iff successively_Cons)
qed

lemma pending_ok_pairs:
  assumes "pending_ok s {} (pre @ x # y # post)"
  shows "\<not> (tag_of s x = TAG_FREE \<and> tag_of s y = TAG_FREE)"
  using assms by (auto simp: pending_ok_def successively_append_iff successively_Cons)

lemma merge_step:
  assumes inv: "zinv s z (pre @ c # n # post) F {x}"
    and xy: "x = c \<and> y = n \<or> x = n \<and> y = c" and ty: "tag_of s y = TAG_FREE"
  shows "\<exists>F'. zinv (MergeBlock (RemoveFree s y) c n) z (pre @ c # post) F' {c}"
    and "same_outside (region s z (pre @ c # n # post)) s (MergeBlock (RemoveFree s y) c n)"
    and "region (MergeBlock (RemoveFree s y) c n) z (pre @ c # post)
           = region s z (pre @ c # n # post)"
proof -
  let ?bs = "pre @ c # n # post"
  let ?s1 = "RemoveFree s y"
  note bi = zinvD(1) [OF inv]
  note fi = zinvD(3) [OF inv]
  have d: "distinct (blocklist z # ?bs)"
    using blocks_invD(3) [OF bi] by (rule zone_blocks_distinct)
  have yx: "y \<noteq> x" using xy d by auto
  have "y \<in> {b \<in> set ?bs. tag_of s b = TAG_FREE} - {x}" using xy ty yx by auto
  then have "y \<in> (\<Union>k\<in>set (sentinels z). set (F k))"
    by (simp only: free_invD(3) [OF fi])
  then obtain k where k: "k \<in> set (sentinels z)" "y \<in> set (F k)" by blast
  note rf = RemoveFree_zinv [OF inv k]
  have P: "insert y {x} = {c, n}" using xy by auto
  have inv1: "zinv ?s1 z ?bs (F(k := remove1 y (F k))) {c, n}"
    using rf(1) by (simp only: P)
  note mb = MergeBlock_zinv [OF inv1]
  have "{c, n} - {n} = {c}" using d by auto
  then have "zinv (MergeBlock ?s1 c n) z (pre @ c # post) (F(k := remove1 y (F k))) {c}"
    using mb(1) by simp
  then show "\<exists>F'. zinv (MergeBlock ?s1 c n) z (pre @ c # post) F' {c}" by blast
  have r1: "region ?s1 z ?bs = region s z ?bs" by (rule region_cong) simp_all
  have "same_outside (region s z ?bs) ?s1 (MergeBlock ?s1 c n)"
    using mb(2) by (simp add: r1)
  then show "same_outside (region s z ?bs) s (MergeBlock ?s1 c n)"
    by (rule same_outside_trans [OF rf(2)])
  show "region (MergeBlock ?s1 c n) z (pre @ c # post) = region s z ?bs"
    using mb(3) by (simp add: r1)
qed


lemma zinv_ring:
  assumes "zinv s z bs F P"
  shows "ring (next_of s) (prev_of s) (blocklist z # bs)" "distinct (blocklist z # bs)"
    "tag_of s (blocklist z) = TAG_GENERAL"
  using blocks_invD(3,4) [OF zinvD(1) [OF assms]]
  by (simp_all add: zone_blocks_def ring_def)

lemma coalesce_prev:
  assumes inv: "zinv s z (pre @ b # post) F {b}"
  defines "pf \<equiv> pre \<noteq> [] \<and> tag_of s (last pre) = TAG_FREE"
  defines "b' \<equiv> if pf then last pre else b"
  defines "pre' \<equiv> if pf then butlast pre else pre"
  defines "s' \<equiv> if pf then MergeBlock (RemoveFree s (last pre)) (last pre) b else s"
  shows "(tag_of s (prev_of s b) = TAG_FREE) = pf"
    and "pf \<Longrightarrow> prev_of s b = last pre"
    and "\<exists>F'. zinv s' z (pre' @ b' # post) F' {b'}"
    and "same_outside (region s z (pre @ b # post)) s s'"
    and "region s' z (pre' @ b' # post) = region s z (pre @ b # post)"
    and "tag_of s' = tag_of s \<and> id_of s' = id_of s \<and> zone_used s' = zone_used s
          \<and> brk s' = brk s \<and> (\<forall>a. a \<noteq> b' \<longrightarrow> size_of s' a = size_of s a)"
proof -
  let ?h = "blocklist z"
  note r = zinv_ring [OF inv]
  have "ring (next_of s) (prev_of s) ((?h # pre) @ b # post)" using r(1) by simp
  then have "prev_of s b = last (b # post @ ?h # pre)" by (rule ring_prev)
  then have pv: "prev_of s b = last (?h # pre)" by simp
  show 1: "(tag_of s (prev_of s b) = TAG_FREE) = pf"
    using r(3) by (simp add: pv pf_def)
  show 2: "pf \<Longrightarrow> prev_of s b = last pre" by (simp add: pv pf_def)
  show "tag_of s' = tag_of s \<and> id_of s' = id_of s \<and> zone_used s' = zone_used s
          \<and> brk s' = brk s \<and> (\<forall>a. a \<noteq> b' \<longrightarrow> size_of s' a = size_of s a)"
    by (simp add: s'_def b'_def)
  show "\<exists>F'. zinv s' z (pre' @ b' # post) F' {b'}"
    "same_outside (region s z (pre @ b # post)) s s'"
    "region s' z (pre' @ b' # post) = region s z (pre @ b # post)"
  proof -
    have "(\<exists>F'. zinv s' z (pre' @ b' # post) F' {b'})
      \<and> same_outside (region s z (pre @ b # post)) s s'
      \<and> region s' z (pre' @ b' # post) = region s z (pre @ b # post)"
    proof (cases pf)
      case False
      then show ?thesis using inv by (auto simp: s'_def b'_def pre'_def)
    next
      case True
      then have e: "pre = butlast pre @ [last pre]" by (simp add: pf_def)
      have inv': "zinv s z (butlast pre @ last pre # b # post) F {b}"
        using inv by (subst (asm) e) simp
      have t: "tag_of s (last pre) = TAG_FREE" using True by (simp add: pf_def)
      note ms = merge_step [OF inv' _ t]
      have l: "butlast pre @ last pre # b # post = pre @ b # post"
        by (subst (3) e) simp
      show ?thesis
        using ms True by (simp add: s'_def b'_def pre'_def l)
    qed
    then show "\<exists>F'. zinv s' z (pre' @ b' # post) F' {b'}"
      "same_outside (region s z (pre @ b # post)) s s'"
      "region s' z (pre' @ b' # post) = region s z (pre @ b # post)"
      by blast+
  qed
qed

lemma coalesce_next:
  assumes inv: "zinv s z (pre @ b # post) F {b}"
  defines "nf \<equiv> post \<noteq> [] \<and> tag_of s (hd post) = TAG_FREE"
  defines "post' \<equiv> if nf then tl post else post"
  defines "s' \<equiv> if nf then MergeBlock (RemoveFree s (hd post)) b (hd post) else s"
  shows "(tag_of s (next_of s b) = TAG_FREE) = nf"
    and "nf \<Longrightarrow> next_of s b = hd post"
    and "\<exists>F'. zinv s' z (pre @ b # post') F' {b}"
    and "same_outside (region s z (pre @ b # post)) s s'"
    and "region s' z (pre @ b # post') = region s z (pre @ b # post)"
    and "tag_of s' = tag_of s \<and> id_of s' = id_of s \<and> zone_used s' = zone_used s
          \<and> brk s' = brk s \<and> (\<forall>a. a \<noteq> b \<longrightarrow> size_of s' a = size_of s a)"
proof -
  let ?h = "blocklist z"
  note r = zinv_ring [OF inv]
  have "ring (next_of s) (prev_of s) ((?h # pre) @ b # post)" using r(1) by simp
  then have "next_of s b = hd (post @ (?h # pre) @ [b])" by (rule ring_next)
  then have nx: "next_of s b = (if post = [] then ?h else hd post)" by simp
  show 1: "(tag_of s (next_of s b) = TAG_FREE) = nf"
    using r(3) by (simp add: nx nf_def)
  show 2: "nf \<Longrightarrow> next_of s b = hd post" by (simp add: nx nf_def)
  show "tag_of s' = tag_of s \<and> id_of s' = id_of s \<and> zone_used s' = zone_used s
          \<and> brk s' = brk s \<and> (\<forall>a. a \<noteq> b \<longrightarrow> size_of s' a = size_of s a)"
    by (simp add: s'_def)
  have "(\<exists>F'. zinv s' z (pre @ b # post') F' {b})
      \<and> same_outside (region s z (pre @ b # post)) s s'
      \<and> region s' z (pre @ b # post') = region s z (pre @ b # post)"
  proof (cases nf)
    case False
    then show ?thesis using inv by (auto simp: s'_def post'_def)
  next
    case True
    then have e: "post = hd post # tl post" by (simp add: nf_def)
    have inv': "zinv s z (pre @ b # hd post # tl post) F {b}"
      using inv e by simp
    have t: "tag_of s (hd post) = TAG_FREE" using True by (simp add: nf_def)
    note ms = merge_step [OF inv' _ t]
    show ?thesis
      using ms True e by (simp add: s'_def post'_def)
  qed
  then show "\<exists>F'. zinv s' z (pre @ b # post') F' {b}"
    "same_outside (region s z (pre @ b # post)) s s'"
    "region s' z (pre @ b # post') = region s z (pre @ b # post)"
    by blast+
qed


subsection \<open>\<^verbatim>\<open>Z_Free\<close> keeps the invariant\<close>

lemma Z_Free_steps:
  assumes "ptr \<noteq> 0" and "id_of s (ptr - 32) = ZONEID" and "tag_of s (ptr - 32) \<noteq> TAG_FREE"
    and "tag_of s (ptr - 32) \<noteq> TAG_STATIC"
    and "read_int s (ptr - 32 + size_of s (ptr - 32) - 4) = ZONEID"
    and "s1 = Z_Free_mark s (if tag_of s (ptr - 32) = TAG_SMALL then smallzone s
        else mainzone s) (ptr - 32)"
    and "(if tag_of s (ptr - 32) = TAG_SMALL then smallzone s else mainzone s) = z"
    and "s2 = (if tag_of s1 (prev_of s1 (ptr - 32)) = TAG_FREE
        then MergeBlock (RemoveFree s1 (prev_of s1 (ptr - 32))) (prev_of s1 (ptr - 32))
               (ptr - 32) else s1)"
    and "b' = (if tag_of s1 (prev_of s1 (ptr - 32)) = TAG_FREE
        then prev_of s1 (ptr - 32) else ptr - 32)"
    and "s3 = (if tag_of s2 (next_of s2 b') = TAG_FREE
        then MergeBlock (RemoveFree s2 (next_of s2 b')) b' (next_of s2 b') else s2)"
  shows "Z_Free s ptr = Inr (InsertFree s3 z b')"
proof -
  have 6: "Z_Free_mark s z (ptr - 32) = s1" using assms(6,7) by simp
  note U = Z_Free_unfold [OF assms(1-5), unfolded Let_def assms(7) 6]
  have 9: "(if tag_of s1 (prev_of s1 (ptr - 32)) = TAG_FREE
      then (MergeBlock (RemoveFree s1 (prev_of s1 (ptr - 32))) (prev_of s1 (ptr - 32))
              (ptr - 32), prev_of s1 (ptr - 32))
      else (s1, ptr - 32)) = (s2, b')"
    using assms(8,9) by simp
  show ?thesis unfolding U 9 by (simp add: assms(10))
qed

lemma Z_Free_zinv:
  assumes inv: "zinv s z (pre @ b # post) F {}"
    and ib: "id_of s b = ZONEID" and tb: "tag_of s b \<noteq> TAG_FREE"
    and ts: "tag_of s b \<noteq> TAG_STATIC"
    and zz: "z = mainzone s \<or> z = smallzone s"
  defines "pf \<equiv> pre \<noteq> [] \<and> tag_of s (last pre) = TAG_FREE"
  defines "nf \<equiv> post \<noteq> [] \<and> tag_of s (hd post) = TAG_FREE"
  defines "b' \<equiv> if pf then last pre else b"
  defines "pre' \<equiv> if pf then butlast pre else pre"
  defines "post' \<equiv> if nf then tl post else post"
  shows "\<exists>s' F'. Z_Free s (b + 32) = Inr s' \<and> zinv s' z (pre' @ b' # post') F' {}
     \<and> same_outside (region s z (pre @ b # post)) s s'
     \<and> region s' z (pre' @ b' # post') = region s z (pre @ b # post)
     \<and> tag_of s' = (tag_of s)(b := TAG_FREE) \<and> id_of s' = id_of s
     \<and> (\<forall>a. a \<noteq> b' \<longrightarrow> size_of s' a = size_of s a)
     \<and> zone_used s' = (zone_used s)(z := zone_used s z - size_of s b) \<and> brk s' = brk s"
proof -
  let ?bs = "pre @ b # post"
  let ?R = "region s z ?bs"
  note bi = zinvD(1) [OF inv]
  note ai = zinvD(4) [OF inv]
  have bin: "b \<in> set ?bs" by simp
  have d: "distinct (blocklist z # ?bs)"
    using blocks_invD(3) [OF bi] by (rule zone_blocks_distinct)
  have zsel: "(if tag_of s b = TAG_SMALL then smallzone s else mainzone s) = z"
    using ai ib tb zz unfolding acct_inv_def by auto
  have trash: "read_int s (b + size_of s b - 4) = ZONEID"
    using ai ib tb unfolding acct_inv_def by auto
  have b0: "b + 32 \<noteq> 0" using blocks_invD(1) [OF bi] blocks_invD(6) [OF bi bin] by auto
  define s1 where "s1 = Z_Free_mark s z b"
  note m = Z_Free_mark_zinv [OF inv bin ib tb, folded s1_def]
  have inv1: "zinv s1 z ?bs F {b}" using m(1) by simp
  have t1: "tag_of s1 = (tag_of s)(b := TAG_FREE)" "id_of s1 = id_of s" "size_of s1 = size_of s"
    "zone_used s1 = (zone_used s)(z := zone_used s z - size_of s b)" "brk s1 = brk s"
    using ib by (simp_all add: s1_def fun_upd_idem)
  have lp: "pre \<noteq> [] \<Longrightarrow> last pre \<noteq> b" using d last_in_set [of pre] by auto
  have hp: "post \<noteq> [] \<Longrightarrow> hd post \<noteq> b" using d hd_in_set [of post] by auto
  have pf1: "(pre \<noteq> [] \<and> tag_of s1 (last pre) = TAG_FREE) = pf"
    using lp by (auto simp: pf_def t1)
  define s2 where "s2 = (if pf then MergeBlock (RemoveFree s1 (last pre)) (last pre) b else s1)"
  note cp = coalesce_prev [OF inv1, unfolded pf1, folded b'_def pre'_def s2_def]
  obtain F2 where inv2: "zinv s2 z (pre' @ b' # post) F2 {b'}" using cp(3) by blast
  have t2: "tag_of s2 = tag_of s1" "id_of s2 = id_of s1" "zone_used s2 = zone_used s1"
    "brk s2 = brk s1" "\<And>a. a \<noteq> b' \<Longrightarrow> size_of s2 a = size_of s1 a"
    using cp(6) by simp_all
  have nf2: "(post \<noteq> [] \<and> tag_of s2 (hd post) = TAG_FREE) = nf"
    using hp by (auto simp: nf_def t1 t2)
  define s3 where "s3 = (if nf then MergeBlock (RemoveFree s2 (hd post)) b' (hd post) else s2)"
  note cn = coalesce_next [OF inv2, unfolded nf2, folded post'_def s3_def]
  obtain F3 where inv3: "zinv s3 z (pre' @ b' # post') F3 {b'}" using cn(3) by blast
  have t3: "tag_of s3 = tag_of s2" "id_of s3 = id_of s2" "zone_used s3 = zone_used s2"
    "brk s3 = brk s2" "\<And>a. a \<noteq> b' \<Longrightarrow> size_of s3 a = size_of s2 a"
    using cn(6) by simp_all
  have r1: "region s1 z ?bs = ?R" using m(3) .
  have r2: "region s2 z (pre' @ b' # post) = ?R" using cp(5) r1 by simp
  have r3: "region s3 z (pre' @ b' # post') = ?R" using cn(5) r2 by simp
  have so3: "same_outside ?R s s3"
  proof -
    have "same_outside ?R s1 s2" using cp(4) by (simp add: r1)
    moreover have "same_outside ?R s2 s3" using cn(4) by (simp add: r2)
    ultimately show ?thesis using m(2) by (blast intro: same_outside_trans)
  qed
  have ev: "Z_Free s (b + 32) = Inr (InsertFree s3 z b')"
  proof (rule Z_Free_steps [where ?s1.0 = s1 and ?s2.0 = s2])
    show "b + 32 \<noteq> 0" by (rule b0)
    show "id_of s (b + 32 - 32) = ZONEID" "tag_of s (b + 32 - 32) \<noteq> TAG_FREE"
      "tag_of s (b + 32 - 32) \<noteq> TAG_STATIC"
      "read_int s (b + 32 - 32 + size_of s (b + 32 - 32) - 4) = ZONEID"
      using ib tb ts trash by simp_all
    show "s1 = Z_Free_mark s (if tag_of s (b + 32 - 32) = TAG_SMALL then smallzone s
        else mainzone s) (b + 32 - 32)"
      by (simp add: zsel s1_def)
    show "(if tag_of s (b + 32 - 32) = TAG_SMALL then smallzone s else mainzone s) = z"
      by (simp add: zsel)
    show "s2 = (if tag_of s1 (prev_of s1 (b + 32 - 32)) = TAG_FREE
        then MergeBlock (RemoveFree s1 (prev_of s1 (b + 32 - 32))) (prev_of s1 (b + 32 - 32))
               (b + 32 - 32) else s1)"
      using cp(1,2) by (cases pf) (simp_all add: s2_def)
    show "b' = (if tag_of s1 (prev_of s1 (b + 32 - 32)) = TAG_FREE
        then prev_of s1 (b + 32 - 32) else b + 32 - 32)"
      using cp(1,2) by (cases pf) (simp_all add: b'_def)
    show "s3 = (if tag_of s2 (next_of s2 b') = TAG_FREE
        then MergeBlock (RemoveFree s2 (next_of s2 b')) b' (next_of s2 b') else s2)"
      using cn(1,2) by (cases nf) (simp_all add: s3_def)
  qed
  have po: "pending_ok s3 ({b'} - {b'}) (pre' @ b' # post')"
  proof -
    have tg: "tag_of s3 = (tag_of s)(b := TAG_FREE)" by (simp add: t3 t2 t1)
    have d3: "distinct (pre' @ b' # post')"
      using zinv_ring(2) [OF inv3] by simp
    have p0: "pending_ok s {} ?bs" by (rule zinvD(2) [OF inv])
    have l: "tag_of s3 (last pre') \<noteq> TAG_FREE" if ne: "pre' \<noteq> []"
    proof (cases pf)
      case False
      then show ?thesis using ne lp by (auto simp: tg pre'_def pf_def)
    next
      case True
      then have e: "pre = butlast pre @ [last pre]" by (simp add: pf_def)
      have ne': "butlast pre \<noteq> []" using ne True by (simp add: pre'_def)
      then have e2: "butlast pre = butlast (butlast pre) @ [last (butlast pre)]" by simp
      have l: "?bs = butlast (butlast pre) @ last (butlast pre) # last pre # b # post"
        by (subst e, subst e2) simp
      have "\<not> (tag_of s (last (butlast pre)) = TAG_FREE \<and> tag_of s (last pre) = TAG_FREE)"
        using p0 unfolding l by (rule pending_ok_pairs)
      moreover have "last (butlast pre) \<noteq> b"
        using d last_in_set [OF ne'] in_set_butlastD [of "last (butlast pre)" pre] by auto
      ultimately show ?thesis using True by (simp add: tg pre'_def pf_def)
    qed
    have h: "tag_of s3 (hd post') \<noteq> TAG_FREE" if ne: "post' \<noteq> []"
    proof (cases nf)
      case False
      then show ?thesis using ne hp by (auto simp: tg post'_def nf_def)
    next
      case True
      then have e: "post = hd post # tl post" by (simp add: nf_def)
      have ne': "tl post \<noteq> []" using ne True by (simp add: post'_def)
      then have e2: "tl post = hd (tl post) # tl (tl post)" by simp
      have l: "?bs = (pre @ [b]) @ hd post # hd (tl post) # tl (tl post)"
        using e e2 by simp
      have "\<not> (tag_of s (hd post) = TAG_FREE \<and> tag_of s (hd (tl post)) = TAG_FREE)"
        using p0 unfolding l by (rule pending_ok_pairs)
      moreover have "hd (tl post) \<noteq> b"
      proof -
        have "hd (tl post) \<in> set (tl post)" using ne' by simp
        then have "hd (tl post) \<in> set post" using e by (metis list.set_intros(2))
        then show ?thesis using d by auto
      qed
      ultimately show ?thesis using True by (simp add: tg post'_def nf_def)
    qed
    have "pending_ok s3 {} (pre' @ b' # post')"
      using zinvD(2) [OF inv3] d3 l h by (rule pending_ok_close)
    then show ?thesis by simp
  qed
  note ins = InsertFree_zinv [OF inv3 _ po]
  let ?s' = "InsertFree s3 z b'"
  have invf: "\<exists>F'. zinv ?s' z (pre' @ b' # post') F' {}"
    using ins(1) by auto
  have sof: "same_outside ?R s ?s'"
  proof -
    have "same_outside ?R s3 ?s'" using ins(2) by (simp add: r3)
    then show ?thesis by (rule same_outside_trans [OF so3])
  qed
  have rf: "region ?s' z (pre' @ b' # post') = ?R"
  proof -
    have "region ?s' z (pre' @ b' # post') = region s3 z (pre' @ b' # post')"
      by (rule region_cong) simp_all
    then show ?thesis by (simp add: r3)
  qed
  have sz: "\<forall>a. a \<noteq> b' \<longrightarrow> size_of ?s' a = size_of s a"
    by (simp add: t3 t2 t1)
  show ?thesis
    using ev invf sof rf sz by (auto simp: t3 t2 t1)
qed


subsection \<open>Splitting a free block\<close>

lemma Z_TagMalloc_split_blocks_inv:
  assumes bi: "blocks_inv s z (pre @ c # post)"
    and tc: "tag_of s c = TAG_FREE" and sz: "48 \<le> sz" and ex: "48 \<le> size_of s c - sz"
  shows "blocks_inv (Z_TagMalloc_split s c sz) z (pre @ c # (c + sz) # post)"
    and "region (Z_TagMalloc_split s c sz) z (pre @ c # (c + sz) # post)
           = region s z (pre @ c # post)"
    and "next_of s c \<in> set (blocklist z # pre @ c # post)"
    and "c + sz \<notin> set (blocklist z # pre @ c # post)"
proof -
  let ?s' = "Z_TagMalloc_split s c sz"
  let ?f = "c + sz"
  let ?bs = "pre @ c # post"
  let ?bs' = "pre @ c # ?f # post"
  let ?h = "blocklist z"
  have cin: "c \<in> set ?bs" by auto
  note fc = free_block_facts [OF bi cin tc]
  have d: "distinct (?h # ?bs)"
    using blocks_invD(3) [OF bi] by (rule zone_blocks_distinct)
  have s0: "sorted_wrt (\<lambda>x y. x + ext s x \<le> y) pre"
    "sorted_wrt (\<lambda>x y. x + ext s x \<le> y) post"
    "\<forall>x\<in>set pre. x + ext s x \<le> c \<and> (\<forall>y\<in>set post. x + ext s x \<le> y)"
    "\<forall>y\<in>set post. c + ext s c \<le> y"
    using blocks_invD(7) [OF bi] by (auto simp: sorted_wrt_append)
  have pos: "\<And>x. x \<in> set ?bs \<Longrightarrow> 0 < ext s x" by (rule ext_pos [OF bi])
  have fpre: "?f \<notin> set pre"
  proof
    assume "?f \<in> set pre"
    then have "?f + ext s ?f \<le> c" "0 < ext s ?f" using s0(3) pos [of ?f] by auto
    then show False using sz by simp
  qed
  have fpost: "?f \<notin> set post"
  proof
    assume "?f \<in> set post"
    then have "c + ext s c \<le> ?f" using s0(4) by auto
    then show False using ex fc(5) by simp
  qed
  have cpre: "c \<notin> set pre" and cpost: "c \<notin> set post" using d by auto
  have fh: "?f \<noteq> ?h" using fc(1) sz by (simp add: blocklist_def)
  show fnew: "?f \<notin> set (?h # ?bs)" using fpre fpost fh sz by auto
  have sz0: "sz \<noteq> 0" using sz by simp
  note lk = Z_TagMalloc_split_links [OF sz0, of s c]
  have id': "id_of ?s' = (id_of s)(?f := ZONEID)" and tag': "tag_of ?s' = (tag_of s)(?f := TAG_FREE)"
    and size': "size_of ?s' = (size_of s)(?f := size_of s c - sz, c := sz)"
    by simp_all
  have e': "ext ?s' b = (if b = c then sz else if b = ?f then size_of s c - sz else ext s b)" for b
    using fc(2) sz0 by (simp add: ext_def id' size')
  have r0: "ring (next_of s) (prev_of s) ((?h # pre) @ c # post)"
    using blocks_invD(3) [OF bi] by (simp add: zone_blocks_def)
  have nx: "next_of s c = hd (post @ (?h # pre) @ [c])"
    by (rule ring_next [OF r0])
  show nxin: "next_of s c \<in> set (?h # ?bs)"
    using hd_app_Cons_mem [of post ?h "pre @ [c]"] nx by auto
  have nxc: "next_of s c \<noteq> c" using nx d by (cases post) auto
  have nxf: "next_of s c \<noteq> ?f" using nxin fnew by metis
  have ring': "ring (next_of ?s') (prev_of ?s') ((?h # pre) @ c # ?f # post)"
  proof (rule ring_insert [OF r0 _ nx])
    show "?f \<notin> set ((?h # pre) @ c # post)" using fnew by simp
  qed (use nxc nxf sz0 in \<open>simp_all add: lk\<close>)
  have blk: "z + 232 \<le> b \<and> b + ext ?s' b \<le> brk ?s'
        \<and> (id_of ?s' b = ZONEID \<and> 48 \<le> size_of ?s' b
            \<or> id_of ?s' b = - ZONEID \<and> tag_of ?s' b = TAG_GENERAL \<and> size_of ?s' b = 0)"
    if "b \<in> set ?bs'" for b
  proof (cases "b = ?f \<or> b = c")
    case True
    then show ?thesis using fc sz ex by (auto simp: e' id' size' tag')
  next
    case False
    then have "b \<in> set ?bs" using that by auto
    from blocks_invD(6) [OF bi this] show ?thesis
      using False by (simp add: e' id' size' tag')
  qed
  have sorted: "sorted_wrt (\<lambda>x y. x + ext ?s' x \<le> y) ?bs'"
  proof -
    have "sorted_wrt (\<lambda>x y. x + ext ?s' x \<le> y) pre"
      using s0(1) d fpre by (subst sorted_wrt_ext_cong [where e = "ext s"]) (auto simp: e')
    moreover have "sorted_wrt (\<lambda>x y. x + ext ?s' x \<le> y) post"
      using s0(2) d fpost by (subst sorted_wrt_ext_cong [where e = "ext s"]) (auto simp: e')
    moreover have "\<forall>x\<in>set pre. x + ext ?s' x \<le> c \<and> x + ext ?s' x \<le> ?f
        \<and> (\<forall>y\<in>set post. x + ext ?s' x \<le> y)"
      using s0(3) d fpre sz by (auto simp: e')
    moreover have "\<forall>y\<in>set post. c + ext ?s' c \<le> y \<and> ?f + ext ?s' ?f \<le> y"
      using s0(4) fc(5) ex sz0 by (auto simp: e')
    moreover have "c + ext ?s' c \<le> ?f" by (simp add: e')
    ultimately show ?thesis by (auto simp: sorted_wrt_append)
  qed
  have contig: "successively
      (\<lambda>x y. id_of s x = ZONEID \<and> id_of s y = ZONEID \<longrightarrow> x + size_of s x = y) ?bs"
    by (rule blocks_invD(8) [OF bi])
  have contig': "successively
      (\<lambda>x y. id_of ?s' x = ZONEID \<and> id_of ?s' y = ZONEID \<longrightarrow> x + size_of ?s' x = y) ?bs'"
  proof -
    have a: "successively
      (\<lambda>x y. id_of s x = ZONEID \<and> id_of s y = ZONEID \<longrightarrow> x + size_of s x = y) (pre @ [c])"
      and b: "successively
      (\<lambda>x y. id_of s x = ZONEID \<and> id_of s y = ZONEID \<longrightarrow> x + size_of s x = y) (c # post)"
      using contig by (auto simp: successively_append_iff successively_Cons)
    have a': "successively
      (\<lambda>x y. id_of ?s' x = ZONEID \<and> id_of ?s' y = ZONEID \<longrightarrow> x + size_of ?s' x = y) (pre @ [c])"
    proof -
      have "successively
        (\<lambda>x y. id_of ?s' x = ZONEID \<and> id_of ?s' y = ZONEID \<longrightarrow> x + size_of ?s' x = y) pre"
        using a d fpre by (subst contig_cong [where i = "id_of s" and sz = "size_of s"])
          (auto simp: successively_append_iff id' size')
      moreover have "pre \<noteq> [] \<longrightarrow> last pre \<noteq> c \<and> last pre \<noteq> ?f"
        using cpre fpre by (metis last_in_set)
      moreover have "pre \<noteq> [] \<longrightarrow> (id_of s (last pre) = ZONEID \<and> id_of s c = ZONEID \<longrightarrow>
          last pre + size_of s (last pre) = c)"
        using a by (auto simp: successively_append_iff)
      ultimately show ?thesis
        using sz0 by (auto simp: successively_append_iff id' size')
    qed
    have b': "successively
      (\<lambda>x y. id_of ?s' x = ZONEID \<and> id_of ?s' y = ZONEID \<longrightarrow> x + size_of ?s' x = y)
      (c # ?f # post)"
    proof -
      have "successively
        (\<lambda>x y. id_of ?s' x = ZONEID \<and> id_of ?s' y = ZONEID \<longrightarrow> x + size_of ?s' x = y) post"
        using b d fpost by (subst contig_cong [where i = "id_of s" and sz = "size_of s"])
          (auto simp: successively_Cons id' size')
      moreover have "post \<noteq> [] \<longrightarrow> hd post \<noteq> c \<and> hd post \<noteq> ?f"
        using cpost fpost by (metis hd_in_set)
      moreover have "post \<noteq> [] \<longrightarrow> (id_of s (hd post) = ZONEID \<longrightarrow>
          c + size_of s c = hd post)"
        using b fc(2) by (auto simp: successively_Cons)
      ultimately show ?thesis
        using sz0 by (auto simp: successively_Cons id' size')
    qed
    show ?thesis
      using a' b' by (auto simp: successively_append_iff successively_Cons)
  qed
  have hd': "tag_of ?s' ?h = TAG_GENERAL" "id_of ?s' ?h = - ZONEID"
    using blocks_invD(4,5) [OF bi] fh by (simp_all add: id' tag')
  show "blocks_inv ?s' z ?bs'"
    unfolding blocks_inv_def zone_blocks_def
    using blocks_invD(1,2) [OF bi] hd' ring' blk sorted contig' by simp
  have "{c ..< c + size_of s c} = {c ..< c + sz} \<union> {?f ..< ?f + (size_of s c - sz)}"
    using sz ex by auto
  then show "region ?s' z ?bs' = region s z ?bs"
    using d fpre fpost fc(5) sz0 by (auto simp: region_def e' split: if_splits)
qed


lemma Z_TagMalloc_split_zinv:
  assumes inv: "zinv s z (pre @ c # post) F P" and c: "c \<in> P"
    and sz: "48 \<le> sz" and ex: "48 \<le> size_of s c - sz"
  shows "zinv (Z_TagMalloc_split s c sz) z (pre @ c # (c + sz) # post) F (insert (c + sz) P)"
    and "same_outside (region s z (pre @ c # post)) s (Z_TagMalloc_split s c sz)"
    and "region (Z_TagMalloc_split s c sz) z (pre @ c # (c + sz) # post)
           = region s z (pre @ c # post)"
    and "c + sz \<notin> set (blocklist z # pre @ c # post)"
proof -
  let ?s' = "Z_TagMalloc_split s c sz"
  let ?f = "c + sz"
  let ?bs = "pre @ c # post"
  let ?bs' = "pre @ c # ?f # post"
  let ?h = "blocklist z"
  let ?Q = "\<lambda>s P x y. tag_of s x = TAG_FREE \<and> tag_of s y = TAG_FREE \<longrightarrow> x \<in> P \<or> y \<in> P"
  note bi = zinvD(1) [OF inv]
  note fi = zinvD(3) [OF inv]
  note ai = zinvD(4) [OF inv]
  note fc = zinv_P [OF inv c]
  note sp = Z_TagMalloc_split_blocks_inv [OF bi fc(2) sz ex]
  show "region ?s' z ?bs' = region s z ?bs" by (rule sp(2))
  show fnew: "?f \<notin> set (?h # ?bs)" by (rule sp(4))
  have sz0: "sz \<noteq> 0" using sz by simp
  have d: "distinct (?h # ?bs)"
    using blocks_invD(3) [OF bi] by (rule zone_blocks_distinct)
  have tag': "tag_of ?s' = (tag_of s)(?f := TAG_FREE)" by simp
  have po: "successively (?Q s P) ?bs" using zinvD(2) [OF inv] by (simp add: pending_ok_def)
  have po': "pending_ok ?s' (insert ?f P) ?bs'"
  proof -
    have "successively (?Q s P) pre" using po by (simp add: successively_append_iff)
    then have "successively (?Q ?s' (insert ?f P)) pre"
      by (rule successively_mono) (use fnew in \<open>auto simp: tag'\<close>)
    moreover have "successively (?Q s P) post"
      using po by (auto simp: successively_append_iff successively_Cons)
    then have "successively (?Q ?s' (insert ?f P)) post"
      by (rule successively_mono) (use fnew in \<open>auto simp: tag'\<close>)
    ultimately show ?thesis
      using c by (auto simp: pending_ok_def successively_append_iff successively_Cons)
  qed
  have free: "{b \<in> set ?bs'. tag_of ?s' b = TAG_FREE}
      = insert ?f {b \<in> set ?bs. tag_of s b = TAG_FREE}"
    using fnew by (auto simp: tag')
  have fi': "free_inv ?s' z ?bs' F (insert ?f P)"
  proof -
    have "?f \<notin> {b \<in> set ?bs. tag_of s b = TAG_FREE}" using fnew by auto
    then show ?thesis
      unfolding free_inv_def free
      using free_invD(1,2) [OF fi] free_invD(3,4) [OF fi] by simp blast
  qed
  have e': "ext ?s' b = ext s b" if "b \<noteq> c" "b \<noteq> ?f" for b
    using that by (simp add: ext_def)
  have ai': "acct_inv ?s' z ?bs'"
  proof -
    have f1: "filter (\<lambda>b. tag_of ?s' b \<noteq> TAG_FREE) ?bs' = filter (\<lambda>b. tag_of s b \<noteq> TAG_FREE) ?bs"
    proof -
      have "filter (\<lambda>b. tag_of ?s' b \<noteq> TAG_FREE) xs = filter (\<lambda>b. tag_of s b \<noteq> TAG_FREE) xs"
        if "?f \<notin> set xs" for xs
        using that by (intro filter_cong refl) (auto simp: tag')
      then show ?thesis using fnew fc(2) by (simp add: tag')
    qed
    have "map (ext ?s') (filter (\<lambda>b. tag_of s b \<noteq> TAG_FREE) ?bs)
        = map (ext s) (filter (\<lambda>b. tag_of s b \<noteq> TAG_FREE) ?bs)"
    proof (intro map_cong refl)
      fix x assume "x \<in> set (filter (\<lambda>b. tag_of s b \<noteq> TAG_FREE) ?bs)"
      then have "x \<noteq> c" "x \<noteq> ?f" using fc(2) fnew by auto
      then show "ext ?s' x = ext s x" by (rule e')
    qed
    note m = this
    have u: "used_sum ?s' ?bs' = used_sum s ?bs"
      unfolding used_sum_def f1 m by (rule refl)
    have "read_int ?s' (b + size_of ?s' b - 4) = ZONEID
          \<and> (tag_of ?s' b = TAG_SMALL \<longleftrightarrow> z = smallzone ?s')"
      if b: "b \<in> set ?bs'" "id_of ?s' b = ZONEID \<and> tag_of ?s' b \<noteq> TAG_FREE" for b
    proof -
      have n: "b \<noteq> ?f" "b \<noteq> c" using b(2) fc(2) sz0 by (auto simp: tag')
      then have "b \<in> set ?bs" using b(1) by auto
      moreover have "id_of s b = ZONEID \<and> tag_of s b \<noteq> TAG_FREE" using b(2) n by simp
      ultimately have "read_int s (b + size_of s b - 4) = ZONEID
          \<and> (tag_of s b = TAG_SMALL \<longleftrightarrow> z = smallzone s)"
        using ai unfolding acct_inv_def by blast
      then show ?thesis using n by (simp add: Z_TagMalloc_split_def Let_def)
    qed
    then show ?thesis
      using ai u unfolding acct_inv_def by (simp add: Z_TagMalloc_split_def Let_def)
  qed
  show "zinv ?s' z ?bs' F (insert ?f P)"
    using sp(1) po' fi' ai' by (simp add: zinv_def)
  have cr: "c \<in> region s z ?bs" by (rule block_in_region [OF bi]) simp
  have fr: "?f \<in> region s z ?bs"
    using fc(3,5,7) sz ex by (intro region_block [of c]) auto
  have nr: "next_of s c \<in> region s z ?bs"
  proof (cases "next_of s c = ?h")
    case True
    then show ?thesis by (simp add: head_in_region)
  next
    case False
    then have "next_of s c \<in> set ?bs" using sp(3) by auto
    then show ?thesis by (rule block_in_region [OF bi])
  qed
  show "same_outside (region s z ?bs) s ?s'"
  proof (rule same_outside_blocks)
    fix a assume "a \<notin> region s z ?bs"
    then have "a \<noteq> c" "a \<noteq> next_of s c" "a \<noteq> ?f" using cr nr fr by auto
    then show "next_of ?s' a = next_of s a \<and> prev_of ?s' a = prev_of s a
        \<and> size_of ?s' a = size_of s a \<and> tag_of ?s' a = tag_of s a \<and> id_of ?s' a = id_of s a"
      by (simp add: Z_TagMalloc_split_links [OF sz0])
  qed simp_all
qed

subsection \<open>Claiming a free block\<close>

lemma read_int_write_int_other:
  "q + 3 < p \<or> p + 3 < q \<Longrightarrow> read_int (write_int s p v) q = read_int s q"
  by (auto simp: read_int_def write_int_def)

lemma used_sum_claim:
  assumes "distinct bs" and "b \<in> set bs" and "tag_of s b = TAG_FREE" and "t \<noteq> TAG_FREE"
    and "tag_of s' = (tag_of s)(b := t)" and "ext s' = ext s"
  shows "used_sum s' bs = used_sum s bs + ext s b"
  using assms(1,2)
proof (induction bs)
  case Nil
  then show ?case by simp
next
  case (Cons a bs)
  have eq: "used_sum s' bs = used_sum s bs" if "b \<notin> set bs"
  proof -
    have "filter (\<lambda>x. tag_of s' x \<noteq> TAG_FREE) bs = filter (\<lambda>x. tag_of s x \<noteq> TAG_FREE) bs"
      using that by (intro filter_cong refl) (auto simp: assms(5))
    then show ?thesis by (simp add: used_sum_def assms(6))
  qed
  show ?case
  proof (cases "a = b")
    case True
    then have "b \<notin> set bs" using Cons.prems by simp
    then show ?thesis using True assms(3,4) eq by (simp add: used_sum_def assms(5,6))
  next
    case False
    then have "used_sum s' bs = used_sum s bs + ext s b" using Cons by simp
    then show ?thesis using False by (simp add: used_sum_def assms(5,6))
  qed
qed

lemma Z_TagMalloc_claim_zinv:
  assumes inv: "zinv s z bs F P" and c: "c \<in> P" and t: "t \<noteq> TAG_FREE"
    and zt: "t = TAG_SMALL \<longleftrightarrow> z = smallzone s"
  shows "zinv (Z_TagMalloc_claim s z c t) z bs F (P - {c})"
    and "same_outside (region s z bs) s (Z_TagMalloc_claim s z c t)"
    and "region (Z_TagMalloc_claim s z c t) z bs = region s z bs"
proof -
  let ?s' = "Z_TagMalloc_claim s z c t"
  let ?h = "blocklist z"
  note bi = zinvD(1) [OF inv]
  note fi = zinvD(3) [OF inv]
  note ai = zinvD(4) [OF inv]
  note fc = zinv_P [OF inv c]
  have d: "distinct (?h # bs)" using blocks_invD(3) [OF bi] by (rule zone_blocks_distinct)
  have idq: "(id_of s)(c := ZONEID) = id_of s" using fc(4) by (simp add: fun_upd_idem)
  have e: "ext ?s' = ext s" by (rule ext_cong) (simp_all add: idq)
  show reg: "region ?s' z bs = region s z bs" by (rule region_cong) (simp_all add: idq)
  have ch: "c \<noteq> ?h" using d fc(1) by auto
  have bi': "blocks_inv ?s' z bs"
    using bi ch fc(4) unfolding blocks_inv_def
    by (auto simp: e idq zone_blocks_def)
  have po': "pending_ok ?s' (P - {c}) bs"
    using zinvD(2) [OF inv] unfolding pending_ok_def
    by (rule successively_mono) (use t in auto)
  have fi': "free_inv ?s' z bs F (P - {c})"
  proof -
    let ?FREE = "{x \<in> set bs. tag_of s x = TAG_FREE}"
    have FR: "{x \<in> set bs. tag_of ?s' x = TAG_FREE} = ?FREE - {c}"
      using t by auto
    have u1: "(\<Union>k\<in>set (sentinels z). set (F k)) = (?FREE - {c}) - (P - {c})"
    proof -
      have "(\<Union>k\<in>set (sentinels z). set (F k)) = ?FREE - P" by (rule free_invD(3) [OF fi])
      also have "\<dots> = (?FREE - {c}) - (P - {c})" using c by blast
      finally show ?thesis .
    qed
    have u2: "P - {c} \<subseteq> ?FREE - {c}" using free_invD(4) [OF fi] by blast
    have rg: "\<forall>k\<in>set (sentinels z).
        ring (fnext_of ?s') (fprev_of ?s') (k # map (\<lambda>b. b + sizeof_memblock) (F k))"
      using free_invD(1) [OF fi] by simp
    have dj: "\<forall>k\<in>set (sentinels z). \<forall>k'\<in>set (sentinels z).
            k \<noteq> k' \<longrightarrow> set (F k) \<inter> set (F k') = {}"
      using free_invD(2) [OF fi] by blast
    show ?thesis
      unfolding free_inv_def FR using rg dj u1 u2 by blast
  qed
  have bytes': "bytes ?s' = bytes (write_int s (c + size_of s c - 4) ZONEID)" by simp
  have ai': "acct_inv ?s' z bs"
  proof -
    have u: "used_sum ?s' bs = used_sum s bs + ext s c"
      using d fc(1,2) t by (intro used_sum_claim [where t = t]) (simp_all add: e)
    have r: "read_int ?s' (x + size_of s x - 4) = ZONEID"
      if x: "x \<in> set bs" "id_of s x = ZONEID" "x \<noteq> c \<longrightarrow> tag_of s x \<noteq> TAG_FREE" for x
    proof (cases "x = c")
      case True
      have "read_int ?s' (c + size_of s c - 4)
          = read_int (write_int s (c + size_of s c - 4) ZONEID) (c + size_of s c - 4)"
        by (rule read_int_bytes_cong) (simp add: bytes')
      then show ?thesis using True by (simp add: read_int_write_ZONEID)
    next
      case False
      have "x + ext s x \<le> c \<or> c + ext s c \<le> x"
        using sorted_disjoint [OF blocks_invD(7) [OF bi] x(1) fc(1) False] .
      moreover have "48 \<le> size_of s x" "ext s x = size_of s x"
        using blocks_invD(6) [OF bi x(1)] x(2) by (auto simp: ext_def)
      ultimately have "x + size_of s x - 4 + 3 < c + size_of s c - 4
          \<or> c + size_of s c - 4 + 3 < x + size_of s x - 4"
        using fc(5,7) by auto
      then have "read_int (write_int s (c + size_of s c - 4) ZONEID) (x + size_of s x - 4)
          = read_int s (x + size_of s x - 4)"
        by (rule read_int_write_int_other)
      moreover have "read_int ?s' (x + size_of s x - 4)
          = read_int (write_int s (c + size_of s c - 4) ZONEID) (x + size_of s x - 4)"
        by (rule read_int_bytes_cong) (simp add: bytes')
      moreover have "read_int s (x + size_of s x - 4) = ZONEID"
        using ai x False unfolding acct_inv_def by auto
      ultimately show ?thesis by simp
    qed
    have a0: "zone_used s z = used_sum s bs" "48 \<le> minfragment s"
      and a1: "\<And>b. b \<in> set bs \<Longrightarrow> id_of s b = ZONEID \<Longrightarrow> tag_of s b \<noteq> TAG_FREE
          \<Longrightarrow> tag_of s b = TAG_SMALL \<longleftrightarrow> z = smallzone s"
      using ai unfolding acct_inv_def by auto
    have p1: "read_int ?s' (b + size_of ?s' b - 4) = ZONEID
          \<and> (tag_of ?s' b = TAG_SMALL \<longleftrightarrow> z = smallzone ?s')"
      if b: "b \<in> set bs" "id_of ?s' b = ZONEID \<and> tag_of ?s' b \<noteq> TAG_FREE" for b
    proof (cases "b = c")
      case True
      then show ?thesis using r [of c] fc(1,4) zt by simp
    next
      case False
      then have ib: "id_of s b = ZONEID" and tb: "tag_of s b \<noteq> TAG_FREE" using b(2) by simp_all
      show ?thesis using r [of b] a1 [OF b(1) ib tb] b(1) ib tb False by simp
    qed
    have p2: "zone_used ?s' z = used_sum ?s' bs"
      by (simp add: u a0 fc(7))
    have p3: "48 \<le> minfragment ?s'" using a0(2) by simp
    show ?thesis
      unfolding acct_inv_def using p1 p2 p3 by blast
  qed
  show "zinv ?s' z bs F (P - {c})"
    using bi' po' fi' ai' by (simp add: zinv_def)
  have zr: "z \<in> region s z bs" by (rule region_zone) simp
  have br: "\<And>a. c \<le> a \<Longrightarrow> a < c + size_of s c \<Longrightarrow> a \<in> region s z bs"
    using fc(1,7) by (intro region_block [of c]) auto
  show "same_outside (region s z bs) s ?s'"
    unfolding same_outside_def
  proof (intro conjI allI impI)
    fix a assume a: "a \<notin> region s z bs"
    then have ac: "a \<noteq> c" using br [of c] fc(5) by auto
    then show "blocks ?s' a = blocks s a"
      by (simp add: Z_TagMalloc_claim_def Let_def write_int_def)
    have "\<not> (c \<le> a \<and> a < c + size_of s c)" using a br [of a] by blast
    then have "a < c + size_of s c - 4 \<or> c + size_of s c \<le> a" using fc(5) by linarith
    then show "bytes ?s' a = bytes s a" by (auto simp: write_int_def)
    show "zone_used ?s' a = zone_used s a" using a zr by auto
  qed simp_all
qed


subsection \<open>Writes outside a zone\<close>

lemma read_int_cong4:
  "bytes s' p = bytes s p \<Longrightarrow> bytes s' (p + 1) = bytes s (p + 1)
    \<Longrightarrow> bytes s' (p + 2) = bytes s (p + 2) \<Longrightarrow> bytes s' (p + 3) = bytes s (p + 3)
    \<Longrightarrow> read_int s' p = read_int s p"
  by (simp add: read_int_def)

lemma zinv_frame0:
  assumes inv: "zinv s z bs F P"
    and eq: "\<And>a. a \<in> region s z bs \<Longrightarrow> blocks s' a = blocks s a \<and> frees s' a = frees s a
      \<and> bytes s' a = bytes s a \<and> zone_used s' a = zone_used s a"
    and gl: "minfragment s' = minfragment s" "smallzone s' = smallzone s" "brk s \<le> brk s'"
  shows "zinv s' z bs F P" and "region s' z bs = region s z bs"
proof -
  let ?h = "blocklist z"
  note bi = zinvD(1) [OF inv]
  note fi = zinvD(3) [OF inv]
  note ai = zinvD(4) [OF inv]
  have hb: "next_of s' x = next_of s x \<and> prev_of s' x = prev_of s x \<and> tag_of s' x = tag_of s x
      \<and> id_of s' x = id_of s x \<and> size_of s' x = size_of s x" if "x \<in> set (?h # bs)" for x
  proof -
    have "x \<in> region s z bs"
      using that head_in_region [of z s bs] block_in_region [OF bi, of x] by auto
    then show ?thesis
      using eq [of x] by (simp add: next_of_def prev_of_def tag_of_def id_of_def size_of_def)
  qed
  have e: "ext s' x = ext s x" if "x \<in> set bs" for x
    using hb [of x] that by (simp add: ext_def)
  show reg: "region s' z bs = region s z bs"
  proof -
    have "(\<Union>b\<in>set bs. {b ..< b + ext s' b}) = (\<Union>b\<in>set bs. {b ..< b + ext s b})"
      by (rule SUP_cong [OF refl]) (simp only: e)
    then show ?thesis by (simp only: region_def)
  qed
  have ring': "ring (next_of s') (prev_of s') (?h # bs)"
  proof (rule ring_frame [where n = "next_of s" and p = "prev_of s"])
    show "ring (next_of s) (prev_of s) (?h # bs)"
      using blocks_invD(3) [OF bi] by (simp add: zone_blocks_def)
    fix x assume "x \<in> set (?h # bs)"
    then show "next_of s' x = next_of s x \<and> prev_of s' x = prev_of s x"
      using hb [of x] by blast
  qed
  have blk: "z + 232 \<le> b \<and> b + ext s' b \<le> brk s'
        \<and> (id_of s' b = ZONEID \<and> 48 \<le> size_of s' b
            \<or> id_of s' b = - ZONEID \<and> tag_of s' b = TAG_GENERAL \<and> size_of s' b = 0)"
    if "b \<in> set bs" for b
    using blocks_invD(6) [OF bi that] hb [of b] e [OF that] that gl(3) by auto
  have sorted: "sorted_wrt (\<lambda>x y. x + ext s' x \<le> y) bs"
  proof -
    have "sorted_wrt (\<lambda>x y. x + ext s' x \<le> y) bs = sorted_wrt (\<lambda>x y. x + ext s x \<le> y) bs"
      by (rule sorted_wrt_ext_cong) (rule e)
    then show ?thesis using blocks_invD(7) [OF bi] by simp
  qed
  have contig: "successively
      (\<lambda>x y. id_of s' x = ZONEID \<and> id_of s' y = ZONEID \<longrightarrow> x + size_of s' x = y) bs"
  proof -
    have "successively
        (\<lambda>x y. id_of s' x = ZONEID \<and> id_of s' y = ZONEID \<longrightarrow> x + size_of s' x = y) bs
      = successively
        (\<lambda>x y. id_of s x = ZONEID \<and> id_of s y = ZONEID \<longrightarrow> x + size_of s x = y) bs"
    proof (rule contig_cong)
      fix x assume "x \<in> set bs"
      then show "id_of s' x = id_of s x \<and> size_of s' x = size_of s x"
        using hb [of x] by simp
    qed
    then show ?thesis using blocks_invD(8) [OF bi] by simp
  qed
  have bi': "blocks_inv s' z bs"
    unfolding blocks_inv_def zone_blocks_def
    using blocks_invD(1,2,4,5) [OF bi] gl(3) hb [of ?h] ring' blk sorted contig by simp
  have tg: "\<And>x. x \<in> set bs \<Longrightarrow> tag_of s' x = tag_of s x" using hb by simp
  have po': "pending_ok s' P bs"
    using zinvD(2) [OF inv] unfolding pending_ok_def
    by (rule successively_mono) (simp add: tg)
  have FR: "{b \<in> set bs. tag_of s' b = TAG_FREE} = {b \<in> set bs. tag_of s b = TAG_FREE}"
    using tg by auto
  have rings: "ring (fnext_of s') (fprev_of s') (k # map (\<lambda>b. b + sizeof_memblock) (F k))"
    if k: "k \<in> set (sentinels z)" for k
  proof (rule ring_frame [where n = "fnext_of s" and p = "fprev_of s"])
    show "ring (fnext_of s) (fprev_of s) (k # map (\<lambda>b. b + sizeof_memblock) (F k))"
      using free_invD(1) [OF fi k] by simp
    fix a assume "a \<in> set (k # map (\<lambda>b. b + sizeof_memblock) (F k))"
    then have "a \<in> region s z bs"
      using ring_elems_region [OF inv k, of a] by simp
    then show "fnext_of s' a = fnext_of s a \<and> fprev_of s' a = fprev_of s a"
      using eq [of a] by (simp add: fnext_of_def fprev_of_def)
  qed
  have fi': "free_inv s' z bs F P"
    unfolding free_inv_def FR
    using rings free_invD(2) [OF fi] free_invD(3,4) [OF fi] by blast
  have a0: "zone_used s z = used_sum s bs" "48 \<le> minfragment s"
    and a1: "\<And>b. b \<in> set bs \<Longrightarrow> id_of s b = ZONEID \<Longrightarrow> tag_of s b \<noteq> TAG_FREE
          \<Longrightarrow> read_int s (b + size_of s b - 4) = ZONEID
            \<and> (tag_of s b = TAG_SMALL \<longleftrightarrow> z = smallzone s)"
    using ai unfolding acct_inv_def by auto
  have p1: "read_int s' (b + size_of s' b - 4) = ZONEID
          \<and> (tag_of s' b = TAG_SMALL \<longleftrightarrow> z = smallzone s')"
    if b: "b \<in> set bs" "id_of s' b = ZONEID \<and> tag_of s' b \<noteq> TAG_FREE" for b
  proof -
    have ib: "id_of s b = ZONEID" and tb: "tag_of s b \<noteq> TAG_FREE" and sb: "48 \<le> size_of s b"
      and eb: "ext s b = size_of s b"
      using b hb [of b] blocks_invD(6) [OF bi b(1)] by (auto simp: ext_def)
    have "a \<in> region s z bs" if "b \<le> a" "a < b + size_of s b" for a
      using that b(1) eb by (intro region_block [of b]) auto
    then have "bytes s' a = bytes s a" if "b \<le> a" "a < b + size_of s b" for a
      using eq [of a] that by blast
    then have "read_int s' (b + size_of s b - 4) = read_int s (b + size_of s b - 4)"
      using sb by (intro read_int_cong4) auto
    then show ?thesis
      using a1 [OF b(1) ib tb] hb [of b] b(1) gl(2) by simp
  qed
  have p2: "zone_used s' z = used_sum s' bs"
  proof -
    have "filter (\<lambda>b. tag_of s' b \<noteq> TAG_FREE) bs = filter (\<lambda>b. tag_of s b \<noteq> TAG_FREE) bs"
      using tg by (intro filter_cong refl) simp
    note f = this
    have "map (ext s') xs = map (ext s) xs" if "set xs \<subseteq> set bs" for xs
    proof (rule map_cong [OF refl])
      fix x assume "x \<in> set xs"
      then show "ext s' x = ext s x" using that e [of x] by blast
    qed
    from this [of "filter (\<lambda>b. tag_of s b \<noteq> TAG_FREE) bs"]
    have m: "map (ext s') (filter (\<lambda>b. tag_of s b \<noteq> TAG_FREE) bs)
        = map (ext s) (filter (\<lambda>b. tag_of s b \<noteq> TAG_FREE) bs)"
      by simp
    have "used_sum s' bs = used_sum s bs"
      unfolding used_sum_def f m by (rule refl)
    moreover have "zone_used s' z = zone_used s z"
      using eq [of z] region_zone [of z z s bs] by simp
    ultimately show ?thesis using a0(1) by simp
  qed
  have ai': "acct_inv s' z bs"
    unfolding acct_inv_def using p1 p2 a0(2) gl(1) by simp
  show "zinv s' z bs F P"
    using bi' po' fi' ai' by (simp add: zinv_def)
qed

lemma zinv_frame:
  assumes inv: "zinv s z bs F P" and so: "same_outside R s s'"
    and dj: "R \<inter> region s z bs = {}"
  shows "zinv s' z bs F P" and "region s' z bs = region s z bs"
proof -
  have eq: "blocks s' a = blocks s a \<and> frees s' a = frees s a \<and> bytes s' a = bytes s a
      \<and> zone_used s' a = zone_used s a" if "a \<in> region s z bs" for a
    using so dj that unfolding same_outside_def by blast
  have gl: "minfragment s' = minfragment s" "smallzone s' = smallzone s" "brk s \<le> brk s'"
    using so unfolding same_outside_def by simp_all
  show "zinv s' z bs F P" and "region s' z bs = region s z bs"
    by (rule zinv_frame0 [OF inv eq gl], assumption)+
qed


subsection \<open>Initialisation\<close>

lemma InitFree_abs [simp]:
  "next_of (InitFree s fb) = (next_of s)(fb - 32 := 0)"
  "prev_of (InitFree s fb) = (prev_of s)(fb - 32 := 0)"
  "size_of (InitFree s fb) = (size_of s)(fb - 32 := 0)"
  "tag_of (InitFree s fb) = (tag_of s)(fb - 32 := TAG_FREE)"
  "id_of (InitFree s fb) = (id_of s)(fb - 32 := 0)"
  "fnext_of (InitFree s fb) = fnext_of s"
  "fprev_of (InitFree s fb) = fprev_of s"
  "read_int (InitFree s fb) = read_int s"
  by (auto simp: next_of_def prev_of_def size_of_def tag_of_def id_of_def fnext_of_def fprev_of_def
        read_int_def fun_eq_iff InitFree_def zero_memblock_def)

lemma minfragment_update_abs [simp]:
  "next_of (minfragment_update f s) = next_of s"
  "prev_of (minfragment_update f s) = prev_of s"
  "size_of (minfragment_update f s) = size_of s"
  "tag_of (minfragment_update f s) = tag_of s"
  "id_of (minfragment_update f s) = id_of s"
  "fnext_of (minfragment_update f s) = fnext_of s"
  "fprev_of (minfragment_update f s) = fprev_of s"
  "read_int (minfragment_update f s) = read_int s"
  by (auto simp: next_of_def prev_of_def size_of_def tag_of_def id_of_def fnext_of_def fprev_of_def
        read_int_def fun_eq_iff)

lemma Z_ClearZone_blocks:
  assumes "s' = Z_ClearZone s z h sz k"
  shows "next_of s' (z + 8) = z + 232" "prev_of s' (z + 8) = z + 232"
    "tag_of s' (z + 8) = TAG_GENERAL" "id_of s' (z + 8) = - ZONEID"
    "next_of s' (z + 232) = z + 8" "prev_of s' (z + 232) = z + 8"
    "tag_of s' (z + 232) = TAG_FREE" "id_of s' (z + 232) = ZONEID"
    "size_of s' (z + 232) = sz - 232"
  unfolding assms
  by (simp_all add: Z_ClearZone_def Let_def blocklist_def freelist_def freelist_medium_def
        freelist_small_def freelist_tiny_def)

lemma Z_ClearZone_frees:
  assumes "s' = Z_ClearZone s z h sz k" and "128 < sz - 232"
  shows "fnext_of s' (z + 120) = z + 120" "fprev_of s' (z + 120) = z + 120"
    "fnext_of s' (z + 168) = z + 168" "fprev_of s' (z + 168) = z + 168"
    "fnext_of s' (z + 216) = z + 264" "fprev_of s' (z + 216) = z + 264"
    "fnext_of s' (z + 264) = z + 216" "fprev_of s' (z + 264) = z + 216"
  unfolding assms(1) using assms(2)
  by (simp_all add: Z_ClearZone_def Let_def blocklist_def freelist_def freelist_medium_def
        freelist_small_def freelist_tiny_def InsertFree_fabs class_head_def SMALL_SIZE_def
        MEDIUM_SIZE_def)

lemma Z_ClearZone_globals:
  assumes "s' = Z_ClearZone s z h sz k"
  shows "zone_used s' = (zone_used s)(z := 0)" "zone_size s' = (zone_size s)(z := sz)"
    "minfragment s' = (if minfragment s < 48 then 48 else minfragment s)"
    "smallzone s' = smallzone s" "mainzone s' = mainzone s" "brk s' = brk s"
    "heap_end s' = heap_end s" "bytes s' = bytes s"
  unfolding assms
  by (auto simp: Z_ClearZone_def Let_def PAD_def fun_eq_iff)

lemma Z_ClearZone_outside:
  assumes "s' = Z_ClearZone s z h sz k" and "128 < sz - 232" and "a < z \<or> z + 280 \<le> a"
  shows "blocks s' a = blocks s a" "frees s' a = frees s a"
  unfolding assms(1) using assms(2,3)
  by (auto simp: Z_ClearZone_def Let_def blocklist_def freelist_def freelist_medium_def
        freelist_small_def freelist_tiny_def InsertFree_def SMALL_SIZE_def MEDIUM_SIZE_def)

lemma Z_ClearZone_zinv:
  assumes s': "s' = Z_ClearZone s z h sz k" and z0: "0 < z" and sz: "512 \<le> sz"
    and brk: "z + sz \<le> brk s" and mf: "48 \<le> minfragment s"
  shows "zinv s' z [z + 232] ((\<lambda>k. [])(z + 216 := [z + 232])) {}"
    and "region s' z [z + 232] = {z ..< z + sz}"
    and "same_outside {z ..< z + sz} s s'"
proof -
  have big: "128 < sz - 232" using sz by simp
  note b = Z_ClearZone_blocks [OF s']
  note f = Z_ClearZone_frees [OF s' big]
  note g = Z_ClearZone_globals [OF s']
  have e: "ext s' (z + 232) = sz - 232" by (simp add: ext_def b)
  show reg: "region s' z [z + 232] = {z ..< z + sz}"
    using sz by (auto simp: region_def e)
  have bi: "blocks_inv s' z [z + 232]"
    unfolding blocks_inv_def zone_blocks_def
    using z0 sz brk by (simp add: ring_def link_def blocklist_def b e g)
  have po: "pending_ok s' {} [z + 232]" by (simp add: pending_ok_def)
  have f2: "fnext_of s' (264 + z) = z + 216" "fprev_of s' (264 + z) = z + 216"
    using f(7,8) by (simp_all add: add.commute)
  have fi: "free_inv s' z [z + 232] ((\<lambda>k. [])(z + 216 := [z + 232])) {}"
    unfolding free_inv_def
    by (auto simp: sentinels_def freelist_small_def freelist_medium_def freelist_def ring_def
          link_def f f2 b)
  have ai: "acct_inv s' z [z + 232]"
    unfolding acct_inv_def using mf by (simp add: used_sum_def b g)
  show "zinv s' z [z + 232] ((\<lambda>k. [])(z + 216 := [z + 232])) {}"
    using bi po fi ai by (simp add: zinv_def)
  show "same_outside {z ..< z + sz} s s'"
    unfolding same_outside_def
  proof (intro conjI allI impI)
    fix a assume a: "a \<notin> {z ..< z + sz}"
    then have o: "a < z \<or> z + 280 \<le> a" using sz by auto
    show "blocks s' a = blocks s a" "frees s' a = frees s a"
      by (rule Z_ClearZone_outside [OF s' big o])+
    show "bytes s' a = bytes s a" by (simp add: g)
    show "zone_used s' a = zone_used s a" "zone_size s' a = zone_size s a"
      using a sz by (auto simp: g)
  qed (use mf in \<open>simp_all add: g\<close>)
qed


lemma calloc_ok:
  assumes "brk s + n \<le> heap_end s"
  shows "calloc s n = (s\<lparr>blocks := (\<lambda>a. if brk s \<le> a \<and> a < brk s + n then zero_memblock else blocks s a),
            frees := (\<lambda>a. if brk s \<le> a \<and> a < brk s + n then zero_freeblock else frees s a),
            bytes := (\<lambda>a. if brk s \<le> a \<and> a < brk s + n then 0 else bytes s a),
            brk := brk s + n\<rparr>, brk s)"
  using assms by (simp add: calloc_def Let_def)

lemma calloc_fail: "\<not> brk s + n \<le> heap_end s \<Longrightarrow> calloc s n = (s, 0)"
  by (simp add: calloc_def)

lemma Com_Init_Zinv:
  assumes ci: "Com_Init (boot sbuf lo hi) = Inr s"
    and sb: "0 < sbuf" "sbuf + 524288 \<le> lo" and hi: "hi \<le> 2 ^ 31"
  shows "zinv s lo [lo + 232] ((\<lambda>k. [])(lo + 216 := [lo + 232])) {}"
    and "zinv s sbuf [sbuf + 232] ((\<lambda>k. [])(sbuf + 216 := [sbuf + 232])) {}"
    and "mainzone s = lo" and "smallzone s = sbuf"
    and "region s lo [lo + 232] = {lo ..< lo + 12582912}"
    and "region s sbuf [sbuf + 232] = {sbuf ..< sbuf + 524288}"
    and "brk s \<le> heap_end s" and "heap_end s = hi"
proof -
  define s0 where "s0 = boot sbuf lo hi"
  define sB where "sB = (Com_Memset s0 sbuf 0 524288)\<lparr>smallzone := sbuf\<rparr>"
  define s1 where "s1 = Z_ClearZone sB sbuf sbuf 524288 1"
  have i1: "Com_InitSmallZoneMemory s0 = s1"
    by (simp add: Com_InitSmallZoneMemory_def Let_def s1_def sB_def s0_def boot_def)
  have b1: "brk s1 = lo" "heap_end s1 = hi" "smallzone s1 = sbuf" "minfragment s1 = 64"
    by (simp_all add: Z_ClearZone_globals [OF s1_def] sB_def s0_def boot_def MINFRAGMENT_def)
  have ok1: "lo + 12582912 \<le> hi"
  proof (rule ccontr)
    assume "\<not> lo + 12582912 \<le> hi"
    then have "calloc s1 12582912 = (s1, 0)" by (intro calloc_fail) (simp add: b1)
    then show False
      using ci by (simp add: Com_Init_def i1 s0_def [symmetric] Com_InitZoneMemory_def Let_def
          DEF_COMZONEMEGS_def Com_Error_def)
  qed
  define sC where "sC = fst (calloc s1 12582912)"
  define sD where "sD = sC\<lparr>mainzone := lo\<rparr>"
  define s2 where "s2 = Z_ClearZone sD lo lo 12582912 1"
  have c1: "calloc s1 12582912 = (sC, lo)"
    using calloc_ok [of s1 12582912] ok1 by (simp add: sC_def b1)
  have lo0: "lo \<noteq> 0" using sb by simp
  have i2: "Com_InitZoneMemory s1 = Inr s2"
    using lo0 by (simp add: Com_InitZoneMemory_def DEF_COMZONEMEGS_def c1 Let_def s2_def sD_def)
  have sCf: "brk sC = lo + 12582912" "heap_end sC = hi" "smallzone sC = sbuf" "minfragment sC = 64"
    "\<And>a. a < lo \<Longrightarrow> blocks sC a = blocks s1 a \<and> frees sC a = frees s1 a
        \<and> bytes sC a = bytes s1 a \<and> zone_used sC a = zone_used s1 a"
    using calloc_ok [of s1 12582912] ok1 by (simp_all add: sC_def b1)
  have b2: "brk s2 = lo + 12582912" "heap_end s2 = hi" "smallzone s2 = sbuf" "minfragment s2 = 64"
    "mainzone s2 = lo"
    by (simp_all add: Z_ClearZone_globals [OF s2_def] sD_def sCf)
  have ok2: "lo + 12582912 + 58720319 \<le> hi"
  proof (rule ccontr)
    assume "\<not> lo + 12582912 + 58720319 \<le> hi"
    then have "calloc (s2\<lparr>s_hunkTotal := 58720256\<rparr>) 58720319 = (s2\<lparr>s_hunkTotal := 58720256\<rparr>, 0)"
      by (intro calloc_fail) (simp add: b2)
    then show False
      using ci by (simp add: Com_Init_def i1 i2 s0_def [symmetric] Com_InitHunkMemory_def Let_def
          DEF_COMHUNKMEGS_def Com_Error_def)
  qed
  have s: "brk s = lo + 12582912 + 58720319" "heap_end s = hi" "smallzone s = sbuf"
    "minfragment s = 64" "mainzone s = lo"
    "\<And>a. a < lo + 12582912 \<Longrightarrow> blocks s a = blocks s2 a \<and> frees s a = frees s2 a
        \<and> bytes s a = bytes s2 a \<and> zone_used s a = zone_used s2 a"
    using ci calloc_ok [of "s2\<lparr>s_hunkTotal := 58720256\<rparr>" 58720319] ok2 sb
    by (auto simp: Com_Init_def i1 i2 s0_def [symmetric] Com_InitHunkMemory_def Let_def
          DEF_COMHUNKMEGS_def Com_Error_def b2 Hunk_Clear_def PAD_def split: if_splits)
  show "mainzone s = lo" "smallzone s = sbuf" "heap_end s = hi" by (simp_all add: s)
  show "brk s \<le> heap_end s" using ok2 by (simp add: s)
  have z1: "zinv s1 sbuf [sbuf + 232] ((\<lambda>k. [])(sbuf + 216 := [sbuf + 232])) {}"
    and r1: "region s1 sbuf [sbuf + 232] = {sbuf ..< sbuf + 524288}"
    using sb by (intro Z_ClearZone_zinv [OF s1_def]; simp add: sB_def s0_def boot_def MINFRAGMENT_def)+
  have z2: "zinv s2 lo [lo + 232] ((\<lambda>k. [])(lo + 216 := [lo + 232])) {}"
    and r2: "region s2 lo [lo + 232] = {lo ..< lo + 12582912}"
    and so2: "same_outside {lo ..< lo + 12582912} sD s2"
    using sb by (intro Z_ClearZone_zinv [OF s2_def]; simp add: sD_def sCf)+
  have z1': "zinv s2 sbuf [sbuf + 232] ((\<lambda>k. [])(sbuf + 216 := [sbuf + 232])) {}"
    and r1': "region s2 sbuf [sbuf + 232] = region s1 sbuf [sbuf + 232]"
  proof -
    have eq: "blocks s2 a = blocks s1 a \<and> frees s2 a = frees s1 a \<and> bytes s2 a = bytes s1 a
      \<and> zone_used s2 a = zone_used s1 a" if "a \<in> region s1 sbuf [sbuf + 232]" for a
    proof -
      have a: "a < lo" using that sb unfolding r1 by simp
      then have "a \<notin> {lo ..< lo + 12582912}" by simp
      then have "blocks s2 a = blocks sD a \<and> frees s2 a = frees sD a
          \<and> bytes s2 a = bytes sD a \<and> zone_used s2 a = zone_used sD a"
        using so2 unfolding same_outside_def by blast
      then show ?thesis using sCf(5) [OF a] by (simp add: sD_def)
    qed
    show "zinv s2 sbuf [sbuf + 232] ((\<lambda>k. [])(sbuf + 216 := [sbuf + 232])) {}"
      "region s2 sbuf [sbuf + 232] = region s1 sbuf [sbuf + 232]"
      by (rule zinv_frame0 [OF z1 eq]; simp add: b1 b2)+
  qed
  show "zinv s lo [lo + 232] ((\<lambda>k. [])(lo + 216 := [lo + 232])) {}"
    "region s lo [lo + 232] = {lo ..< lo + 12582912}"
  proof -
    have eq: "blocks s a = blocks s2 a \<and> frees s a = frees s2 a \<and> bytes s a = bytes s2 a
      \<and> zone_used s a = zone_used s2 a" if "a \<in> region s2 lo [lo + 232]" for a
      using that s(6) [of a] unfolding r2 by simp
    have "zinv s lo [lo + 232] ((\<lambda>k. [])(lo + 216 := [lo + 232])) {}"
      "region s lo [lo + 232] = region s2 lo [lo + 232]"
      by (rule zinv_frame0 [OF z2 eq]; simp add: s b2)+
    then show "zinv s lo [lo + 232] ((\<lambda>k. [])(lo + 216 := [lo + 232])) {}"
      "region s lo [lo + 232] = {lo ..< lo + 12582912}"
      by (simp_all add: r2)
  qed
  show "zinv s sbuf [sbuf + 232] ((\<lambda>k. [])(sbuf + 216 := [sbuf + 232])) {}"
    "region s sbuf [sbuf + 232] = {sbuf ..< sbuf + 524288}"
  proof -
    have eq: "blocks s a = blocks s2 a \<and> frees s a = frees s2 a \<and> bytes s a = bytes s2 a
      \<and> zone_used s a = zone_used s2 a" if "a \<in> region s2 sbuf [sbuf + 232]" for a
      using that s(6) [of a] sb unfolding r1' r1 by simp
    have "zinv s sbuf [sbuf + 232] ((\<lambda>k. [])(sbuf + 216 := [sbuf + 232])) {}"
      "region s sbuf [sbuf + 232] = region s2 sbuf [sbuf + 232]"
      by (rule zinv_frame0 [OF z1' eq]; simp add: s b2)+
    then show "zinv s sbuf [sbuf + 232] ((\<lambda>k. [])(sbuf + 216 := [sbuf + 232])) {}"
      "region s sbuf [sbuf + 232] = {sbuf ..< sbuf + 524288}"
      by (simp_all add: r1' r1)
  qed
qed


subsection \<open>The walk of \<^verbatim>\<open>Z_FreeTags\<close>\<close>

lemma zinv_prev:
  assumes "zinv s z (pre @ b # post) F P"
  shows "prev_of s b = (if pre = [] then blocklist z else last pre)"
    and "(tag_of s (prev_of s b) = TAG_FREE) = (pre \<noteq> [] \<and> tag_of s (last pre) = TAG_FREE)"
proof -
  note r = zinv_ring [OF assms]
  have "ring (next_of s) (prev_of s) ((blocklist z # pre) @ b # post)" using r(1) by simp
  then have "prev_of s b = last (b # post @ blocklist z # pre)" by (rule ring_prev)
  then show pv: "prev_of s b = (if pre = [] then blocklist z else last pre)" by simp
  show "(tag_of s (prev_of s b) = TAG_FREE) = (pre \<noteq> [] \<and> tag_of s (last pre) = TAG_FREE)"
    using r(3) by (simp add: pv)
qed

lemma zinv_next:
  assumes "zinv s z (pre @ b # post) F P"
  shows "next_of s b = (if post = [] then blocklist z else hd post)"
    and "post \<noteq> [] \<Longrightarrow> hd post \<noteq> blocklist z"
proof -
  note r = zinv_ring [OF assms]
  have "ring (next_of s) (prev_of s) ((blocklist z # pre) @ b # post)" using r(1) by simp
  then have "next_of s b = hd (post @ (blocklist z # pre) @ [b])" by (rule ring_next)
  then show "next_of s b = (if post = [] then blocklist z else hd post)" by simp
  show "hd post \<noteq> blocklist z" if "post \<noteq> []"
    using r(2) hd_in_set [OF that] by auto
qed

lemma Z_FreeTags_loop_skip:
  assumes "\<not> (tag_of s b = t \<and> id_of s b = ZONEID)"
  shows "Z_FreeTags_loop s z t b c =
     (if next_of s b = blocklist z then Some (Inr (s, c))
      else Z_FreeTags_loop s z t (next_of s b) c)"
  using assms
  by (subst Z_FreeTags_loop.simps) (auto simp: tag_of_def id_of_def next_of_def)

lemma Z_FreeTags_loop_free:
  assumes "tag_of s b = t" and "id_of s b = ZONEID" and "Z_Free s (b + 32) = Inr s1"
    and "freed = (if tag_of s (prev_of s b) = TAG_FREE then prev_of s b else b)"
  shows "Z_FreeTags_loop s z t b c =
     (if next_of s1 freed = blocklist z then Some (Inr (s1, c + 1))
      else Z_FreeTags_loop s1 z t (next_of s1 freed) (c + 1))"
  using assms
  by (subst Z_FreeTags_loop.simps)
     (simp add: tag_of_def id_of_def next_of_def prev_of_def Let_def)

lemma Z_Free_kept:
  assumes "x \<in> set (pre @ b # post)"
    and "x \<notin> set ((if pf then butlast pre else pre) @ (if pf then last pre else b)
            # (if nf then tl post else post))"
    and "pf \<longrightarrow> pre \<noteq> []" and "nf \<longrightarrow> post \<noteq> []"
  shows "x = b \<and> pf \<or> nf \<and> x = hd post"
proof -
  have p: "pre = butlast pre @ [last pre]" if "pre \<noteq> []" using that by simp
  have q: "post = hd post # tl post" if "post \<noteq> []" using that by simp
  have "x \<in> set pre \<or> x = b \<or> x \<in> set post" using assms(1) by auto
  then show ?thesis
  proof (elim disjE)
    assume x: "x \<in> set pre"
    then have "pre \<noteq> []" by auto
    from p [OF this] x have "x \<in> set (butlast pre) \<or> x = last pre"
      by (metis Un_iff empty_iff empty_set insert_iff list.simps(15) set_append)
    then show ?thesis using assms(2) x by (auto split: if_splits)
  next
    assume "x = b"
    then show ?thesis using assms(2) by (auto split: if_splits)
  next
    assume x: "x \<in> set post"
    then have "post \<noteq> []" by auto
    from q [OF this] x have "x = hd post \<or> x \<in> set (tl post)"
      by (metis set_ConsD)
    then show ?thesis using assms(2) x by (auto split: if_splits)
  qed
qed

lemma Z_Free_sub:
  assumes "pf \<longrightarrow> pre \<noteq> []" and "nf \<longrightarrow> post \<noteq> []"
  shows "set ((if pf then butlast pre else pre) @ (if pf then last pre else b)
            # (if nf then tl post else post)) \<subseteq> set (pre @ b # post)"
  using assms
  by (auto dest: in_set_butlastD list.set_sel(2) split: if_splits)


lemma Z_FreeTags_loop_spec:
  assumes inv: "zinv s z (pre @ b # post) F {}" and zz: "z = mainzone s \<or> z = smallzone s"
    and t: "t \<noteq> TAG_FREE" "t \<noteq> TAG_STATIC"
  shows "\<exists>s' bs' F'.
      Z_FreeTags_loop s z t b count
        = Some (Inr (s', count + int (length (filter (tagged s t) (b # post)))))
      \<and> zinv s' z bs' F' {} \<and> same_outside (region s z (pre @ b # post)) s s'
      \<and> region s' z bs' = region s z (pre @ b # post)
      \<and> id_of s' = id_of s
      \<and> (\<forall>x. tag_of s' x = (if x \<in> set (b # post) \<and> tagged s t x then TAG_FREE else tag_of s x))
      \<and> (\<forall>x. tag_of s' x \<noteq> TAG_FREE \<longrightarrow> size_of s' x = size_of s x)
      \<and> set bs' \<subseteq> set (pre @ b # post)
      \<and> (\<forall>x \<in> set (pre @ b # post). tag_of s' x \<noteq> TAG_FREE \<longrightarrow> x \<in> set bs')
      \<and> brk s' = brk s"
  using inv zz
proof (induction "length post" arbitrary: s pre b post count F rule: less_induct)
  case less
  note inv = less.prems(1) and zz = less.prems(2)
  let ?bs = "pre @ b # post"
  let ?h = "blocklist z"
  note nx = zinv_next [OF inv]
  have d: "distinct (?h # ?bs)" by (rule zinv_ring(2) [OF inv])
  show ?case
  proof (cases "tagged s t b")
    case False
    then have nm: "\<not> (tag_of s b = t \<and> id_of s b = ZONEID)" by (simp add: tagged_def)
    note sk = Z_FreeTags_loop_skip [OF nm, of z count]
    have fl: "filter (tagged s t) (b # post) = filter (tagged s t) post" using False by simp
    show ?thesis
    proof (cases "post = []")
      case True
      have "Z_FreeTags_loop s z t b count = Some (Inr (s, count))"
        using sk True nx(1) by simp
      then show ?thesis
        using inv True False
        by (intro exI [of _ s] exI [of _ ?bs] exI [of _ F]) auto
    next
      case ne: False
      then have e: "post = hd post # tl post" by simp
      have l: "(pre @ [b]) @ hd post # tl post = ?bs" using e by simp
      have inv': "zinv s z ((pre @ [b]) @ hd post # tl post) F {}" using inv l by simp
      have "length (tl post) < length post" using ne by simp
      from less.hyps [OF this inv' zz, of count]
      obtain s' bs' F' where r:
        "Z_FreeTags_loop s z t (hd post) count
          = Some (Inr (s', count + int (length (filter (tagged s t) (hd post # tl post)))))"
        "zinv s' z bs' F' {}" "same_outside (region s z ?bs) s s'"
        "region s' z bs' = region s z ?bs" "id_of s' = id_of s"
        "\<forall>x. tag_of s' x = (if x \<in> set (hd post # tl post) \<and> tagged s t x
            then TAG_FREE else tag_of s x)"
        "\<forall>x. tag_of s' x \<noteq> TAG_FREE \<longrightarrow> size_of s' x = size_of s x"
        "set bs' \<subseteq> set ?bs" "\<forall>x \<in> set ?bs. tag_of s' x \<noteq> TAG_FREE \<longrightarrow> x \<in> set bs'"
        "brk s' = brk s"
        unfolding l by blast
      have ev: "Z_FreeTags_loop s z t b count
          = Some (Inr (s', count + int (length (filter (tagged s t) (b # post)))))"
      proof -
        have "Z_FreeTags_loop s z t b count = Z_FreeTags_loop s z t (hd post) count"
          using sk nx ne by simp
        also have "\<dots> = Some (Inr (s', count + int (length (filter (tagged s t) post))))"
          using r(1) e by metis
        finally show ?thesis unfolding fl .
      qed
      have tg: "\<forall>x. tag_of s' x = (if x \<in> set (b # post) \<and> tagged s t x
            then TAG_FREE else tag_of s x)"
        using r(6) False e by (metis list.set_intros(2) set_ConsD)
      show ?thesis
        using ev r(2,3,4,5,7,8,9,10) tg by blast
    qed
  next
    case True
    then have tb: "tag_of s b = t" and ib: "id_of s b = ZONEID" by (simp_all add: tagged_def)
    define pf where "pf = (pre \<noteq> [] \<and> tag_of s (last pre) = TAG_FREE)"
    define nf where "nf = (post \<noteq> [] \<and> tag_of s (hd post) = TAG_FREE)"
    define b' where "b' = (if pf then last pre else b)"
    define pre' where "pre' = (if pf then butlast pre else pre)"
    define post' where "post' = (if nf then tl post else post)"
    let ?bs1 = "pre' @ b' # post'"
    have tbf: "tag_of s b \<noteq> TAG_FREE" "tag_of s b \<noteq> TAG_STATIC" using tb t by simp_all
    from Z_Free_zinv [OF inv ib tbf zz, folded pf_def nf_def, folded b'_def pre'_def post'_def]
    obtain s1 F1 where f:
      "Z_Free s (b + 32) = Inr s1" "zinv s1 z ?bs1 F1 {}"
      "same_outside (region s z ?bs) s s1" "region s1 z ?bs1 = region s z ?bs"
      "tag_of s1 = (tag_of s)(b := TAG_FREE)" "id_of s1 = id_of s"
      "\<forall>a. a \<noteq> b' \<longrightarrow> size_of s1 a = size_of s a" "brk s1 = brk s"
      by blast
    have zz1: "z = mainzone s1 \<or> z = smallzone s1"
      using zz f(3) unfolding same_outside_def by simp
    have fr: "b' = (if tag_of s (prev_of s b) = TAG_FREE then prev_of s b else b)"
      using zinv_prev [OF inv] by (auto simp: b'_def pf_def)
    note step = Z_FreeTags_loop_free [OF tb ib f(1) fr, of z count]
    note nx1 = zinv_next [OF f(2)]
    have pfne: "pf \<longrightarrow> pre \<noteq> []" and nfne: "nf \<longrightarrow> post \<noteq> []" by (simp_all add: pf_def nf_def)
    have sub1: "set ?bs1 \<subseteq> set ?bs"
      unfolding pre'_def b'_def post'_def by (rule Z_Free_sub [OF pfne nfne])
    have kept1: "x = b \<and> pf \<or> nf \<and> x = hd post" if "x \<in> set ?bs" "x \<notin> set ?bs1" for x
      using that unfolding pre'_def b'_def post'_def by (rule Z_Free_kept [OF _ _ pfne nfne])
    have b'free: "tag_of s1 b' = TAG_FREE"
      by (simp add: f(5) b'_def pf_def)
    have posts: "set post' \<subseteq> set post" "\<forall>x\<in>set post - set post'. tag_of s x = TAG_FREE"
    proof -
      show "set post' \<subseteq> set post"
        using nfne list.set_sel(2) [of post] by (auto simp: post'_def)
      show "\<forall>x\<in>set post - set post'. tag_of s x = TAG_FREE"
      proof
        fix x assume x: "x \<in> set post - set post'"
        then have nf by (auto simp: post'_def split: if_splits)
        then have "post = hd post # tl post" "tag_of s (hd post) = TAG_FREE"
          by (simp_all add: nf_def)
        then show "tag_of s x = TAG_FREE"
          using x \<open>nf\<close> by (metis DiffD1 DiffD2 post'_def set_ConsD)
      qed
    qed
    have bpost: "b \<notin> set post" "b \<notin> set post'" using d posts(1) by auto
    have tg1: "tagged s1 t x = tagged s t x" if "x \<noteq> b" for x
      using that by (simp add: tagged_def f(5,6))
    have flt: "filter (tagged s1 t) post' = filter (tagged s t) post"
    proof -
      have "filter (tagged s1 t) post' = filter (tagged s t) post'"
      proof (rule filter_cong [OF refl])
        fix x assume "x \<in> set post'"
        then have "x \<noteq> b" using bpost(2) by blast
        then show "tagged s1 t x = tagged s t x" by (rule tg1)
      qed
      also have "\<dots> = filter (tagged s t) post"
      proof (cases nf)
        case False
        then show ?thesis by (simp add: post'_def)
      next
        case True
        then have "post = hd post # tl post" "\<not> tagged s t (hd post)"
          using t(1) by (simp_all add: nf_def tagged_def)
        then show ?thesis using True by (metis filter.simps(2) post'_def)
      qed
      finally show ?thesis .
    qed
    have cnt: "int (length (filter (tagged s t) (b # post)))
        = 1 + int (length (filter (tagged s1 t) post'))"
      using True by (simp add: flt)
    show ?thesis
    proof (cases "post' = []")
      case pe: True
      have "Z_FreeTags_loop s z t b count = Some (Inr (s1, count + 1))"
        using step nx1(1) pe by simp
      then have ev: "Z_FreeTags_loop s z t b count
          = Some (Inr (s1, count + int (length (filter (tagged s t) (b # post)))))"
        using cnt pe by simp
      have tg: "tag_of s1 x = (if x \<in> set (b # post) \<and> tagged s t x
            then TAG_FREE else tag_of s x)" for x
      proof (cases "x = b")
        case True
        then show ?thesis using \<open>tagged s t b\<close> by (simp add: f(5))
      next
        case False
        have "tag_of s x = TAG_FREE" if "x \<in> set post" using posts(2) that pe by simp
        then show ?thesis using False by (auto simp: f(5))
      qed
      have sz: "size_of s1 x = size_of s x" if "tag_of s1 x \<noteq> TAG_FREE" for x
        using that f(7) b'free by auto
      have kp: "x \<in> set ?bs1" if "x \<in> set ?bs" "tag_of s1 x \<noteq> TAG_FREE" for x
      proof (rule ccontr)
        assume "x \<notin> set ?bs1"
        from kept1 [OF that(1) this] that(2) show False
          by (auto simp: f(5) nf_def split: if_splits)
      qed
      show ?thesis
        using ev f(2,3,4,6,8) tg sz sub1 kp by blast
    next
      case ne: False
      then have e: "post' = hd post' # tl post'" by simp
      have l: "(pre' @ [b']) @ hd post' # tl post' = ?bs1" using e by simp
      have inv': "zinv s1 z ((pre' @ [b']) @ hd post' # tl post') F1 {}" using f(2) l by simp
      have "length post' \<le> length post" by (simp add: post'_def)
      then have "length (tl post') < length post" using ne by (cases post') auto
      from less.hyps [OF this inv' zz1, of "count + 1"]
      obtain s' bs' F' where r:
        "Z_FreeTags_loop s1 z t (hd post') (count + 1)
          = Some (Inr (s', count + 1 + int (length (filter (tagged s1 t) (hd post' # tl post')))))"
        "zinv s' z bs' F' {}" "same_outside (region s1 z ?bs1) s1 s'"
        "region s' z bs' = region s1 z ?bs1" "id_of s' = id_of s1"
        "\<forall>x. tag_of s' x = (if x \<in> set (hd post' # tl post') \<and> tagged s1 t x
            then TAG_FREE else tag_of s1 x)"
        "\<forall>x. tag_of s' x \<noteq> TAG_FREE \<longrightarrow> size_of s' x = size_of s1 x"
        "set bs' \<subseteq> set ?bs1" "\<forall>x \<in> set ?bs1. tag_of s' x \<noteq> TAG_FREE \<longrightarrow> x \<in> set bs'"
        "brk s' = brk s1"
        unfolding l by blast
      have r6: "tag_of s' x = (if x \<in> set post' \<and> tagged s1 t x then TAG_FREE else tag_of s1 x)"
        for x using r(6) e by metis
      have ev: "Z_FreeTags_loop s z t b count
          = Some (Inr (s', count + int (length (filter (tagged s t) (b # post)))))"
      proof -
        have "Z_FreeTags_loop s z t b count = Z_FreeTags_loop s1 z t (hd post') (count + 1)"
          using step nx1 ne by simp
        also have "\<dots> = Some (Inr (s', count + 1 + int (length (filter (tagged s1 t) post'))))"
          using r(1) e by metis
        finally show ?thesis using cnt by simp
      qed
      have so: "same_outside (region s z ?bs) s s'"
        using f(3) r(3) unfolding f(4) by (rule same_outside_trans)
      have tg: "tag_of s' x = (if x \<in> set (b # post) \<and> tagged s t x
            then TAG_FREE else tag_of s x)" for x
      proof (cases "x = b")
        case True
        then show ?thesis using \<open>tagged s t b\<close> bpost(2) by (simp add: r6 f(5))
      next
        case False
        have "tag_of s x = TAG_FREE" if "x \<in> set post" "x \<notin> set post'"
          using posts(2) that by simp
        then show ?thesis using False posts(1) by (auto simp: r6 f(5) tg1)
      qed
      have mono: "tag_of s1 x \<noteq> TAG_FREE" if "tag_of s' x \<noteq> TAG_FREE" for x
        using that by (simp add: r6 split: if_splits)
      have sz: "size_of s' x = size_of s x" if "tag_of s' x \<noteq> TAG_FREE" for x
      proof -
        have "x \<noteq> b'" using mono [OF that] b'free by auto
        then show ?thesis using r(7) that f(7) by simp
      qed
      have kp: "x \<in> set bs'" if "x \<in> set ?bs" "tag_of s' x \<noteq> TAG_FREE" for x
      proof -
        have "x \<in> set ?bs1"
        proof (rule ccontr)
          assume "x \<notin> set ?bs1"
          from kept1 [OF that(1) this] mono [OF that(2)] show False
            by (auto simp: f(5) nf_def split: if_splits)
        qed
        then show ?thesis using r(9) that(2) by blast
      qed
      have sub: "set bs' \<subseteq> set ?bs" using r(8) sub1 by blast
      have rg: "region s' z bs' = region s z ?bs" using r(4) f(4) by simp
      have idq: "id_of s' = id_of s" using r(5) f(6) by simp
      have bk: "brk s' = brk s" using r(10) f(8) by simp
      show ?thesis
        using ev r(2) so rg idq tg sz sub kp bk by blast
    qed
  qed
qed


subsection \<open>The block list is determined by the links\<close>

lemma chain_unique:
  assumes "successively (link n p) (a # xs)" and "successively (link n p) (a # ys)"
    and "n (last (a # xs)) = h" and "n (last (a # ys)) = h"
    and "h \<notin> set xs" and "h \<notin> set ys"
  shows "xs = ys"
  using assms
proof (induction xs arbitrary: a ys)
  case Nil
  then show ?case by (cases ys) (auto simp: link_def)
next
  case (Cons x xs)
  show ?case
  proof (cases ys)
    case Nil
    then show ?thesis using Cons.prems by (auto simp: link_def)
  next
    case (Cons y ys')
    have xy: "x = y" using Cons.prems(1,2) Cons by (simp add: link_def)
    have "xs = ys'"
      using Cons.prems Cons xy by (intro Cons.IH [of x ys']) auto
    then show ?thesis using Cons xy by simp
  qed
qed

lemma zone_blocks_unique:
  assumes "zone_blocks s z bs" and "zone_blocks s z bs'"
  shows "bs = bs'"
proof -
  have a: "ring (next_of s) (prev_of s) (blocklist z # bs)"
    and b: "ring (next_of s) (prev_of s) (blocklist z # bs')"
    using assms by (simp_all add: zone_blocks_def)
  show ?thesis
    using a b unfolding ring_def
    by (intro chain_unique [where n = "next_of s" and p = "prev_of s" and a = "blocklist z"
          and h = "blocklist z"]) (auto simp: link_def)
qed

lemma zinv_blocks: "zinv s z bs F P \<Longrightarrow> zone_blocks s z bs"
  using blocks_invD(3) zinvD(1) by blast

lemma zinv_head_next:
  assumes "zinv s z bs F P"
  shows "next_of s (blocklist z) = (if bs = [] then blocklist z else hd bs)"
proof -
  have "ring (next_of s) (prev_of s) ([] @ blocklist z # bs)"
    using zinv_ring(1) [OF assms] by simp
  then have "next_of s (blocklist z) = hd (bs @ [] @ [blocklist z])" by (rule ring_next)
  then show ?thesis by simp
qed

subsection \<open>\<^verbatim>\<open>Z_FreeTags\<close> on one zone\<close>

lemma Z_FreeTags_zinv:
  assumes inv: "zinv s z bs F {}" and zz: "z = (if t = TAG_SMALL then smallzone s else mainzone s)"
    and t: "t \<noteq> TAG_FREE" "t \<noteq> TAG_STATIC"
  shows "\<exists>s' bs' F'.
      Z_FreeTags s t = Some (Inr (s', int (length (filter (tagged s t) bs))))
      \<and> zinv s' z bs' F' {} \<and> same_outside (region s z bs) s s'
      \<and> region s' z bs' = region s z bs
      \<and> id_of s' = id_of s
      \<and> (\<forall>x. tag_of s' x = (if x \<in> set bs \<and> tagged s t x then TAG_FREE else tag_of s x))
      \<and> (\<forall>x. tag_of s' x \<noteq> TAG_FREE \<longrightarrow> size_of s' x = size_of s x)
      \<and> set bs' \<subseteq> set bs
      \<and> (\<forall>x \<in> set bs. tag_of s' x \<noteq> TAG_FREE \<longrightarrow> x \<in> set bs')
      \<and> brk s' = brk s"
proof -
  have u: "Z_FreeTags s t = Z_FreeTags_loop s z t (next_of s (blocklist z)) 0"
    using t(2) zz by (simp add: Z_FreeTags_def Let_def next_of_def)
  note hn = zinv_head_next [OF inv]
  have zz': "z = mainzone s \<or> z = smallzone s" using zz by simp
  show ?thesis
  proof (cases "bs = []")
    case True
    have nt: "\<not> (tag_of s (blocklist z) = t \<and> id_of s (blocklist z) = ZONEID)"
      using blocks_invD(5) [OF zinvD(1) [OF inv]] by simp
    have "Z_FreeTags s t = Some (Inr (s, 0))"
      using Z_FreeTags_loop_skip [OF nt, of z 0] hn True by (simp add: u)
    then show ?thesis
      using inv True by (intro exI [of _ s] exI [of _ bs] exI [of _ F]) auto
  next
    case False
    then have e: "bs = [] @ hd bs # tl bs" by simp
    have inv': "zinv s z ([] @ hd bs # tl bs) F {}" using inv e by simp
    from Z_FreeTags_loop_spec [OF inv' zz' t, of 0]
    show ?thesis
      unfolding e [symmetric] using hn False by (simp add: u)
  qed
qed


subsection \<open>Both zones\<close>

lemma Zinv_preserved:
  assumes z: "zinv s z bs F {}" and zo: "zinv s zo bso Fo {}"
    and dj: "region s z bs \<inter> region s zo bso = {}"
    and mz: "mainzone s = z \<and> smallzone s = zo \<or> mainzone s = zo \<and> smallzone s = z"
    and z': "zinv s' z bs' F' {}" and so: "same_outside (region s z bs) s s'"
    and rg: "region s' z bs' = region s z bs" and bk: "brk s' = brk s"
    and hp: "brk s \<le> heap_end s" "heap_end s \<le> 2 ^ 31"
  shows "Zinv s'" and "zinv s' zo bso Fo {}"
proof -
  note fr = zinv_frame [OF zo so dj]
  show "zinv s' zo bso Fo {}" by (rule fr(1))
  have g: "mainzone s' = mainzone s" "smallzone s' = smallzone s" "heap_end s' = heap_end s"
    using so unfolding same_outside_def by simp_all
  have d': "region s' z bs' \<inter> region s' zo bso = {}" using dj rg fr(2) by simp
  from mz show "Zinv s'"
  proof
    assume "mainzone s = z \<and> smallzone s = zo"
    then show ?thesis
      unfolding Zinv_def using z' fr(1) d' g bk hp
      by (intro exI [of _ bs'] exI [of _ F'] exI [of _ bso] exI [of _ Fo]) simp
  next
    assume "mainzone s = zo \<and> smallzone s = z"
    then show ?thesis
      unfolding Zinv_def using z' fr(1) d' g bk hp
      by (intro exI [of _ bso] exI [of _ Fo] exI [of _ bs'] exI [of _ F']) (simp add: Int_commute)
  qed
qed

lemma Zinv_zone:
  assumes "Zinv s" and "z = mainzone s \<or> z = smallzone s"
  obtains bs F zo bso Fo where "zinv s z bs F {}" "zinv s zo bso Fo {}"
    "region s z bs \<inter> region s zo bso = {}"
    "mainzone s = z \<and> smallzone s = zo \<or> mainzone s = zo \<and> smallzone s = z"
    "brk s \<le> heap_end s" "heap_end s \<le> 2 ^ 31" "z \<noteq> zo"
proof -
  from assms(1) obtain bsM FM bsS FS where i:
    "zinv s (mainzone s) bsM FM {}" "zinv s (smallzone s) bsS FS {}"
    "region s (mainzone s) bsM \<inter> region s (smallzone s) bsS = {}"
    "brk s \<le> heap_end s" "heap_end s \<le> 2 ^ 31"
    unfolding Zinv_def by blast
  have ne: "mainzone s \<noteq> smallzone s"
    using i(3) region_zone [of "mainzone s" "mainzone s" s bsM]
      region_zone [of "smallzone s" "smallzone s" s bsS] by auto
  from assms(2) show ?thesis
  proof
    assume "z = mainzone s"
    then show ?thesis using that [of bsM FM "smallzone s" bsS FS] i ne by simp
  next
    assume "z = smallzone s"
    then show ?thesis using that [of bsS FS "mainzone s" bsM FM] i ne
      by (simp add: Int_commute)
  qed
qed


lemma Com_Init_machine_zones:
  obtains s where "Com_Init machine = Inr s" "Zinv s" "mainzone s = 1048576" "smallzone s = 4096"
    "zone_blocks s 1048576 [1048808]" "zone_blocks s 4096 [4328]"
    "tag_of s 1048808 = TAG_FREE" "id_of s 1048808 = ZONEID"
    "tag_of s 4328 = TAG_FREE" "id_of s 4328 = ZONEID"
proof -
  obtain s where s: "Com_Init machine = Inr s" using Com_Init_machine by blast
  then have ci: "Com_Init (boot 4096 1048576 1073741824) = Inr s" by (simp add: machine_def)
  note z = Com_Init_Zinv [OF ci]
  have zm: "zinv s 1048576 [1048808] ((\<lambda>k. [])(1048792 := [1048808])) {}"
    and zs: "zinv s 4096 [4328] ((\<lambda>k. [])(4312 := [4328])) {}"
    and g: "mainzone s = 1048576" "smallzone s = 4096"
      "region s 1048576 [1048808] = {1048576 ..< 13631488}"
      "region s 4096 [4328] = {4096 ..< 528384}"
      "brk s \<le> heap_end s" "heap_end s = 1073741824"
    using z by simp_all
  have Z: "Zinv s"
    unfolding Zinv_def g
    using zm zs g(3-)
    by (intro exI [of _ "[1048808]"] exI [of _ "(\<lambda>k. [])(1048792 := [1048808])"]
          exI [of _ "[4328]"] exI [of _ "(\<lambda>k. [])(4312 := [4328])"]) simp
  have fm: "tag_of s 1048808 = TAG_FREE" "id_of s 1048808 = ZONEID"
    using zinv_F(2,5) [OF zm, of 1048792 1048808] by (simp_all add: sentinels_set)
  have fs: "tag_of s 4328 = TAG_FREE" "id_of s 4328 = ZONEID"
    using zinv_F(2,5) [OF zs, of 4312 4328] by (simp_all add: sentinels_set)
  show ?thesis
    using that [OF s Z g(1,2) zinv_blocks [OF zm] zinv_blocks [OF zs] fm fs] .
qed

section \<open>The zone\<close>

subsection \<open>C7: the checks of \<^verbatim>\<open>Z_Free\<close>\<close>

text \<open>
  C7, as stated, fails for static blocks. \<^verbatim>\<open>Z_Free\<close> tests for \<^verbatim>\<open>TAG_STATIC\<close>
  before it looks at the trash sentinel, and the static blocks built by
  \<^verbatim>\<open>MEM_STATIC\<close> carry no sentinel: the last four bytes of the block for the digit 3
  are not \<^verbatim>\<open>ZONEID\<close>, and freeing it returns with the state unchanged.
\<close>

theorem Z_Free_static_counterexample:
  "read_int static_state (1024 + size_m (blocks static_state 1024) - 4) \<noteq> ZONEID
   \<and> Z_Free static_state (1024 + 32) = Inr static_state"
  by (simp add: static_state_def MEM_STATIC_def Z_Free_def read_int_def to_int_def ZONEID_def
        machine_def boot_def PAD_def Let_def)

text \<open>
  C7, amended. \<^verbatim>\<open>Z_Free\<close> ends in \<^verbatim>\<open>ERR_DROP\<close> on a \<^verbatim>\<open>NULL\<close> pointer. On any
  other pointer it is fatal when the id of the block header is not \<^verbatim>\<open>ZONEID\<close>;
  failing that, fatal when the tag is \<^verbatim>\<open>TAG_FREE\<close>; failing that, it returns with
  the whole state unchanged when the tag is \<^verbatim>\<open>TAG_STATIC\<close>; and for a block that
  is neither free nor static it is fatal when the last four bytes of the block are
  not \<^verbatim>\<open>ZONEID\<close>. In each error the state is the one \<^verbatim>\<open>Z_Free\<close> was called in.
\<close>

theorem Z_Free_errors:
  "(ptr = 0 \<longrightarrow> Z_Free s ptr = Inl (ERR_DROP, ''Z_Free: NULL pointer'', s))
   \<and> (ptr \<noteq> 0 \<and> id_m (blocks s (ptr - 32)) \<noteq> ZONEID \<longrightarrow>
        Z_Free s ptr = Inl (ERR_FATAL, ''Z_Free: freed a pointer without ZONEID'', s))
   \<and> (ptr \<noteq> 0 \<and> id_m (blocks s (ptr - 32)) = ZONEID
        \<and> tag_m (blocks s (ptr - 32)) = TAG_FREE \<longrightarrow>
        Z_Free s ptr = Inl (ERR_FATAL, ''Z_Free: freed a freed pointer'', s))
   \<and> (ptr \<noteq> 0 \<and> id_m (blocks s (ptr - 32)) = ZONEID
        \<and> tag_m (blocks s (ptr - 32)) = TAG_STATIC \<longrightarrow>
        Z_Free s ptr = Inr s)
   \<and> (ptr \<noteq> 0 \<and> id_m (blocks s (ptr - 32)) = ZONEID
        \<and> tag_m (blocks s (ptr - 32)) \<noteq> TAG_FREE \<and> tag_m (blocks s (ptr - 32)) \<noteq> TAG_STATIC
        \<and> read_int s (ptr - 32 + size_m (blocks s (ptr - 32)) - 4) \<noteq> ZONEID \<longrightarrow>
        Z_Free s ptr = Inl (ERR_FATAL, ''Z_Free: memory block wrote past end'', s))"
  by (simp add: Z_Free_def Com_Error_def Let_def)

text \<open>
  The static block for the digit 3 and the \<^verbatim>\<open>NULL\<close> pointer.
\<close>

theorem Z_Free_errors_witness:
  "(1024 + 32 :: int) \<noteq> 0 \<and> id_m (blocks static_state (1024 + 32 - 32)) = ZONEID
   \<and> tag_m (blocks static_state (1024 + 32 - 32)) = TAG_STATIC
   \<and> Z_Free static_state (1024 + 32) = Inr static_state
   \<and> Z_Free static_state 0 = Inl (ERR_DROP, ''Z_Free: NULL pointer'', static_state)"
  using Z_Free_errors [of "1024 + 32" static_state] Z_Free_errors [of 0 static_state]
  by (simp add: static_state_def MEM_STATIC_def)

subsection \<open>C8: freeing by tag\<close>

text \<open>
  C8, as stated for every tag other than \<^verbatim>\<open>TAG_STATIC\<close>, fails for \<^verbatim>\<open>TAG_FREE\<close>: the
  sweep hands the first free block to \<^verbatim>\<open>Z_Free\<close>, which is fatal on a block that is
  already free. Right after \<^verbatim>\<open>Com_Init\<close> the main zone consists of one free block,
  and \<^verbatim>\<open>Z_FreeTags( TAG_FREE )\<close> ends in \<^verbatim>\<open>ERR_FATAL\<close> instead of returning a count.
\<close>

theorem Z_FreeTags_FREE_counterexample:
  "case Com_Init machine of
     Inl e \<Rightarrow> False
   | Inr s \<Rightarrow> Z_FreeTags s TAG_FREE = Some (Inl (ERR_FATAL, ''Z_Free: freed a freed pointer'', s))"
proof -
  obtain s where s: "Com_Init machine = Inr s" "Zinv s" "mainzone s = 1048576"
    "smallzone s = 4096" "zone_blocks s 1048576 [1048808]" "zone_blocks s 4096 [4328]"
    "tag_of s 1048808 = TAG_FREE" "id_of s 1048808 = ZONEID"
    by (rule Com_Init_machine_zones)
  have "ring (next_of s) (prev_of s) ([] @ blocklist 1048576 # [1048808])"
    using s(5) by (simp add: zone_blocks_def)
  then have "next_of s (blocklist 1048576) = hd ([1048808] @ [] @ [blocklist 1048576])"
    by (rule ring_next)
  then have n: "next_m (blocks s (blocklist 1048576)) = 1048808" by (simp add: next_of_def)
  have b: "tag_m (blocks s 1048808) = TAG_FREE" "id_m (blocks s 1048808) = ZONEID"
    using s(7,8) by (simp_all add: tag_of_def id_of_def)
  have f: "Z_Free s 1048840 = Inl (ERR_FATAL, ''Z_Free: freed a freed pointer'', s)"
    using b by (simp add: Z_Free_def Com_Error_def Let_def)
  have u: "Z_FreeTags s TAG_FREE = Z_FreeTags_loop s 1048576 TAG_FREE 1048808 0"
    by (simp add: Z_FreeTags_def Let_def s(3) n)
  have "Z_FreeTags_loop s 1048576 TAG_FREE 1048808 0
      = Some (Inl (ERR_FATAL, ''Z_Free: freed a freed pointer'', s))"
    by (subst Z_FreeTags_loop.simps) (simp add: b f)
  then show ?thesis by (simp add: s(1) u)
qed

text \<open>
  C8, amended to tags other than \<^verbatim>\<open>TAG_FREE\<close>. Let the allocator be in a state that
  satisfies its invariant, and let \<open>bs\<close> be the block list of the zone that the tag
  selects (the small zone for \<^verbatim>\<open>TAG_SMALL\<close>, the main zone otherwise).
  \<^verbatim>\<open>Z_FreeTags( TAG_STATIC )\<close> is fatal. For every other tag the call returns, and
  its result is the number of blocks of \<open>bs\<close> that carry the tag and \<^verbatim>\<open>ZONEID\<close>.
  Afterwards exactly these blocks have become free: the tag of every other block,
  and the id of every block, is what it was. A block that is not free afterwards
  has kept its size and is still a block of the zone, no block has been added to the
  list, and the invariant holds again, so the walk has come through every merge of
  a freed block with its neighbours.
\<close>

theorem Z_FreeTags_spec:
  assumes "Zinv s" and "t \<noteq> TAG_FREE"
    and "zone_blocks s (if t = TAG_SMALL then smallzone s else mainzone s) bs"
  shows "(t = TAG_STATIC \<longrightarrow>
            Z_FreeTags s t = Some (Inl (ERR_FATAL, ''Z_FreeTags( TAG_STATIC )'', s)))
    \<and> (t \<noteq> TAG_STATIC \<longrightarrow>
         (\<exists>s' bs'. Z_FreeTags s t = Some (Inr (s', int (length (filter (tagged s t) bs))))
            \<and> Zinv s'
            \<and> zone_blocks s' (if t = TAG_SMALL then smallzone s' else mainzone s') bs'
            \<and> set bs' \<subseteq> set bs
            \<and> (\<forall>x. tag_of s' x = (if x \<in> set bs \<and> tagged s t x then TAG_FREE else tag_of s x))
            \<and> (\<forall>x. id_of s' x = id_of s x)
            \<and> (\<forall>x. tag_of s' x \<noteq> TAG_FREE \<longrightarrow> size_of s' x = size_of s x)
            \<and> (\<forall>x\<in>set bs. tag_of s' x \<noteq> TAG_FREE \<longrightarrow> x \<in> set bs')))"
proof (intro conjI impI)
  assume "t = TAG_STATIC"
  then show "Z_FreeTags s t = Some (Inl (ERR_FATAL, ''Z_FreeTags( TAG_STATIC )'', s))"
    by (simp add: Z_FreeTags_def Com_Error_def)
next
  assume ts: "t \<noteq> TAG_STATIC"
  define z where "z = (if t = TAG_SMALL then smallzone s else mainzone s)"
  have zz: "z = mainzone s \<or> z = smallzone s" by (simp add: z_def)
  from Zinv_zone [OF assms(1) zz]
  obtain bs0 F zo bso Fo where i: "zinv s z bs0 F {}" "zinv s zo bso Fo {}"
    "region s z bs0 \<inter> region s zo bso = {}"
    "mainzone s = z \<and> smallzone s = zo \<or> mainzone s = zo \<and> smallzone s = z"
    "brk s \<le> heap_end s" "heap_end s \<le> 2 ^ 31" "z \<noteq> zo"
    by blast
  have bq: "bs0 = bs"
    using zinv_blocks [OF i(1)] assms(3) unfolding z_def [symmetric]
    by (rule zone_blocks_unique)
  note i1 = i(1) [unfolded bq] and i3 = i(3) [unfolded bq]
  from Z_FreeTags_zinv [OF i1 z_def assms(2) ts]
  obtain s' bs' F' where r:
    "Z_FreeTags s t = Some (Inr (s', int (length (filter (tagged s t) bs))))"
    "zinv s' z bs' F' {}" "same_outside (region s z bs) s s'"
    "region s' z bs' = region s z bs" "id_of s' = id_of s"
    "\<forall>x. tag_of s' x = (if x \<in> set bs \<and> tagged s t x then TAG_FREE else tag_of s x)"
    "\<forall>x. tag_of s' x \<noteq> TAG_FREE \<longrightarrow> size_of s' x = size_of s x"
    "set bs' \<subseteq> set bs" "\<forall>x \<in> set bs. tag_of s' x \<noteq> TAG_FREE \<longrightarrow> x \<in> set bs'"
    "brk s' = brk s"
    by blast
  have Z: "Zinv s'"
    by (rule Zinv_preserved(1) [OF i1 i(2) i3 i(4) r(2,3,4,10) i(5,6)])
  have g: "mainzone s' = mainzone s" "smallzone s' = smallzone s"
    using r(3) unfolding same_outside_def by simp_all
  have zb: "zone_blocks s' (if t = TAG_SMALL then smallzone s' else mainzone s') bs'"
    using zinv_blocks [OF r(2)] unfolding g z_def .
  show "\<exists>s' bs'. Z_FreeTags s t = Some (Inr (s', int (length (filter (tagged s t) bs))))
            \<and> Zinv s'
            \<and> zone_blocks s' (if t = TAG_SMALL then smallzone s' else mainzone s') bs'
            \<and> set bs' \<subseteq> set bs
            \<and> (\<forall>x. tag_of s' x = (if x \<in> set bs \<and> tagged s t x then TAG_FREE else tag_of s x))
            \<and> (\<forall>x. id_of s' x = id_of s x)
            \<and> (\<forall>x. tag_of s' x \<noteq> TAG_FREE \<longrightarrow> size_of s' x = size_of s x)
            \<and> (\<forall>x\<in>set bs. tag_of s' x \<noteq> TAG_FREE \<longrightarrow> x \<in> set bs')"
    using r(1) Z zb r(8) r(6) r(5) r(7) r(9) by auto
qed

text \<open>
  \<^verbatim>\<open>Z_FreeTags( TAG_GENERAL )\<close> right after \<^verbatim>\<open>Com_Init\<close>: the one block of the main
  zone is free, nothing carries the tag, and the count is 0.
\<close>

theorem Z_FreeTags_spec_witness:
  "case Com_Init machine of
     Inl e \<Rightarrow> False
   | Inr s \<Rightarrow>
      Zinv s \<and> zone_blocks s (mainzone s) [1048808]
      \<and> (case Z_FreeTags s TAG_GENERAL of
            Some (Inr (s', n)) \<Rightarrow> n = 0 \<and> Zinv s' \<and> tag_of s' 1048808 = TAG_FREE
          | _ \<Rightarrow> False)"
proof -
  obtain s where s: "Com_Init machine = Inr s" "Zinv s" "mainzone s = 1048576"
    "smallzone s = 4096" "zone_blocks s 1048576 [1048808]" "zone_blocks s 4096 [4328]"
    "tag_of s 1048808 = TAG_FREE" "id_of s 1048808 = ZONEID"
    by (rule Com_Init_machine_zones)
  have zb: "zone_blocks s (if TAG_GENERAL = TAG_SMALL then smallzone s else mainzone s) [1048808]"
    using s(5) by (simp add: s(3))
  have nt: "\<not> tagged s TAG_GENERAL 1048808" by (simp add: tagged_def s(7))
  show ?thesis
    using Z_FreeTags_spec [OF s(2) _ zb, of] s(2) s(5) nt s(7)
    by (auto simp: s(1) s(3))
qed


end
